theory Spec2Isabelle
  imports Complex_Main
begin

section \<open>Tongue-region detection and ordered selection (LayoutBuilder)\<close>

text \<open>
  A shallow embedding of the detection methods of the layout builder class: the ordered
  selection of detected tongues, the detection entry point with its fallback, the
  hand-written pipeline stages (grayscale, blur, Sobel, contour tracing, shape filtering,
  overlap removal) and the bounding box of a contour.

  JavaScript numbers are modelled by exact numbers: pixel coordinates and box sizes, which
  the code only ever adds, subtracts, multiplies and compares, are \<open>int\<close>; thresholds,
  ratios and confidences are \<open>real\<close>. Array indices and counts are \<open>nat\<close>.
\<close>

subsection \<open>Selection sequencer: \<open>selectTongue\<close>, \<open>deselectTongue\<close>, \<open>clearTongueSelection\<close>\<close>

text \<open>
  An overlay is the DOM element of one detected tongue: whether its class list holds
  \<open>selected\<close>, and the text of its \<open>.tongue-number\<close> child (\<open>None\<close> is the empty text).
\<close>

record overlay =
  selected_class :: bool
  number_text :: "nat option"

record sequencer =
  selectedTongues :: "nat list"
  detectionOverlays :: "overlay list"

text \<open>\<open>createInteractiveTongueOverlays\<close> after \<open>clearDetectionOverlays\<close>: one fresh overlay
  per detected tongue, nothing selected.\<close>

definition initial_sequencer :: "nat \<Rightarrow> sequencer" where
  "initial_sequencer n =
     \<lparr>selectedTongues = [],
      detectionOverlays = replicate n \<lparr>selected_class = False, number_text = None\<rparr>\<rparr>"

text \<open>\<open>this.detectionOverlays[tongueIndex]\<close> is \<open>undefined\<close> out of range, and the
  \<open>if (overlay)\<close> guard then skips the update.\<close>

definition update_overlay :: "nat \<Rightarrow> (overlay \<Rightarrow> overlay) \<Rightarrow> overlay list \<Rightarrow> overlay list" where
  "update_overlay k f ovs = (if k < length ovs then ovs[k := f (ovs ! k)] else ovs)"

definition selectTongue :: "nat \<Rightarrow> sequencer \<Rightarrow> sequencer" where
  "selectTongue tongueIndex s =
     (if tongueIndex \<in> set (selectedTongues s) then s
      else
        let sel = selectedTongues s @ [tongueIndex] in
        \<lparr>selectedTongues = sel,
         detectionOverlays =
           update_overlay tongueIndex
             (\<lambda>ov. \<lparr>selected_class = True, number_text = Some (length sel)\<rparr>)
             (detectionOverlays s)\<rparr>)"

text \<open>\<open>Array.prototype.indexOf\<close>: position of the first occurrence, \<open>None\<close> for \<open>-1\<close>.\<close>

fun indexOf :: "nat list \<Rightarrow> nat \<Rightarrow> nat option" where
  "indexOf [] v = None"
| "indexOf (x # xs) v = (if x = v then Some 0 else map_option Suc (indexOf xs v))"

text \<open>\<open>xs.splice(i, 1)\<close>: remove the element at position \<open>i\<close>.\<close>

definition splice1 :: "nat \<Rightarrow> 'a list \<Rightarrow> 'a list" where
  "splice1 i xs = take i xs @ drop (Suc i) xs"

text \<open>The \<open>forEach\<close> of \<open>deselectTongue\<close> that numbers the remaining selections;
  \<open>newOrder\<close> is the running array position.\<close>

fun renumber :: "nat list \<Rightarrow> nat \<Rightarrow> overlay list \<Rightarrow> overlay list" where
  "renumber [] newOrder ovs = ovs"
| "renumber (selectedTongueIndex # rest) newOrder ovs =
     renumber rest (Suc newOrder)
       (update_overlay selectedTongueIndex (\<lambda>ov. ov\<lparr>number_text := Some (newOrder + 1)\<rparr>) ovs)"

definition deselectTongue :: "nat \<Rightarrow> sequencer \<Rightarrow> sequencer" where
  "deselectTongue tongueIndex s =
     (case indexOf (selectedTongues s) tongueIndex of
        None \<Rightarrow> s
      | Some selectedIndex \<Rightarrow>
          let sel = splice1 selectedIndex (selectedTongues s);
              ovs = update_overlay tongueIndex
                      (\<lambda>ov. \<lparr>selected_class = False, number_text = None\<rparr>)
                      (detectionOverlays s)
          in \<lparr>selectedTongues = sel, detectionOverlays = renumber sel 0 ovs\<rparr>)"

definition clearTongueSelection :: "sequencer \<Rightarrow> sequencer" where
  "clearTongueSelection s =
     \<lparr>selectedTongues = [],
      detectionOverlays =
        map (\<lambda>ov. \<lparr>selected_class = False, number_text = None\<rparr>) (detectionOverlays s)\<rparr>"

text \<open>The number shown on the overlay of tongue \<open>k\<close>, if there is such an overlay and it
  shows one.\<close>

definition display_order :: "sequencer \<Rightarrow> nat \<Rightarrow> nat option" where
  "display_order s k =
     (if k < length (detectionOverlays s) then number_text (detectionOverlays s ! k) else None)"

text \<open>A session: any sequence of the three operations.\<close>

datatype selection_op = Select nat | Deselect nat | Clear

fun apply_selection_op :: "selection_op \<Rightarrow> sequencer \<Rightarrow> sequencer" where
  "apply_selection_op (Select i) s = selectTongue i s"
| "apply_selection_op (Deselect i) s = deselectTongue i s"
| "apply_selection_op Clear s = clearTongueSelection s"

fun run_selection :: "selection_op list \<Rightarrow> sequencer \<Rightarrow> sequencer" where
  "run_selection [] s = s"
| "run_selection (opn # ops) s = run_selection ops (apply_selection_op opn s)"

subsection \<open>JavaScript numbers that may be infinite or NaN\<close>

text \<open>
  A division in JavaScript never raises: a positive number divided by zero is \<open>Infinity\<close>,
  zero divided by zero is \<open>NaN\<close>, and every comparison with \<open>NaN\<close> is false. The aspect
  ratio of a box is such a quotient, so it is a \<open>jsnum\<close>.
\<close>

datatype jsnum = Num real | PosInfinity | NegInfinity | NaN

definition js_div :: "int \<Rightarrow> int \<Rightarrow> jsnum" where
  "js_div a b =
     (if b \<noteq> 0 then Num (real_of_int a / real_of_int b)
      else if 0 < a then PosInfinity
      else if a < 0 then NegInfinity
      else NaN)"

fun js_lt :: "jsnum \<Rightarrow> real \<Rightarrow> bool" where
  "js_lt (Num a) r = (a < r)"
| "js_lt PosInfinity r = False"
| "js_lt NegInfinity r = True"
| "js_lt NaN r = False"

fun js_gt :: "jsnum \<Rightarrow> real \<Rightarrow> bool" where
  "js_gt (Num a) r = (a > r)"
| "js_gt PosInfinity r = True"
| "js_gt NegInfinity r = False"
| "js_gt NaN r = False"

fun js_le :: "jsnum \<Rightarrow> real \<Rightarrow> bool" where
  "js_le (Num a) r = (a \<le> r)"
| "js_le PosInfinity r = False"
| "js_le NegInfinity r = True"
| "js_le NaN r = False"

fun js_ge :: "jsnum \<Rightarrow> real \<Rightarrow> bool" where
  "js_ge (Num a) r = (a \<ge> r)"
| "js_ge PosInfinity r = True"
| "js_ge NegInfinity r = False"
| "js_ge NaN r = False"

subsection \<open>Bounding box of a contour: \<open>getBoundingBox\<close>\<close>

text \<open>A point \<open>{x, y}\<close> is the pair \<open>(x, y)\<close> of its pixel coordinates.\<close>

type_synonym point = "int \<times> int"

record bbox =
  bbox_x :: int
  bbox_y :: int
  bbox_width :: int
  bbox_height :: int

text \<open>The \<open>for (const point of contour)\<close> loop on the running minima and maxima
  \<open>(minX, minY, maxX, maxY)\<close>.\<close>

fun bounds_loop :: "point list \<Rightarrow> int \<times> int \<times> int \<times> int \<Rightarrow> int \<times> int \<times> int \<times> int" where
  "bounds_loop [] acc = acc"
| "bounds_loop ((x, y) # points) (minX, minY, maxX, maxY) =
     bounds_loop points (min minX x, min minY y, max maxX x, max maxY y)"

text \<open>
  The minima start at \<open>Infinity\<close> and the maxima at \<open>-Infinity\<close>, so the first point sets all
  four to its own coordinates. For the empty contour the source returns the box of
  infinities \<open>{x: Infinity, y: Infinity, width: -Infinity, height: -Infinity}\<close>, which is
  no box of integers: \<open>None\<close> stands for it.
\<close>

definition getBoundingBox :: "point list \<Rightarrow> bbox option" where
  "getBoundingBox contour =
     (case contour of
        [] \<Rightarrow> None
      | (x, y) # points \<Rightarrow>
          (case bounds_loop points (x, y, x, y) of
             (minX, minY, maxX, maxY) \<Rightarrow>
               Some \<lparr>bbox_x = minX, bbox_y = minY,
                     bbox_width = maxX - minX, bbox_height = maxY - minY\<rparr>))"

subsection \<open>Shape classifier: \<open>filterTongueShapes\<close> and \<open>calculateTongueConfidence\<close>\<close>

record tongue =
  contour :: "point list"
  bbox :: bbox
  area :: int
  aspectRatio :: jsnum
  centerX :: real
  centerY :: real
  confidence :: real

definition calculateTongueConfidence :: "bbox \<Rightarrow> int \<Rightarrow> jsnum \<Rightarrow> real" where
  "calculateTongueConfidence b ar aspect =
     (let confidence = 0.5;
          confidence = (if js_ge aspect 2.0 \<and> js_le aspect 4.0 then confidence + 0.3
                        else confidence);
          confidence = (if ar > 1000 \<and> ar < 50000 then confidence + 0.2 else confidence)
      in min 1.0 confidence)"

text \<open>
  The body of the loop over the contours: \<open>None\<close> when the contour is rejected, the
  tongue that is pushed otherwise. The box of infinities of an empty contour has area
  \<open>Infinity\<close> (the product of two negative infinities), which is not below \<open>minArea\<close> and
  is above \<open>maxArea\<close>: it is rejected.
\<close>

definition classifyContour :: "nat \<Rightarrow> nat \<Rightarrow> point list \<Rightarrow> tongue option" where
  "classifyContour imageWidth imageHeight c =
     (let minArea = real (imageWidth * imageHeight) * 0.00014;
          maxArea = real (imageWidth * imageHeight) * 0.25;
          minAspectRatio = 0.75;
          maxAspectRatio = 8.0;
          minWidth = real imageWidth * 0.01;
          minHeight = real imageHeight * 0.01
      in case getBoundingBox c of
           None \<Rightarrow> None
         | Some b \<Rightarrow>
            (let ar = bbox_width b * bbox_height b;
                 aspect = js_div (bbox_width b) (bbox_height b)
             in if real_of_int ar < minArea then None
                else if real_of_int ar > maxArea then None
                else if js_lt aspect minAspectRatio then None
                else if js_gt aspect maxAspectRatio then None
                else if real_of_int (bbox_width b) < minWidth then None
                else if real_of_int (bbox_height b) < minHeight then None
                else Some \<lparr>contour = c, bbox = b, area = ar, aspectRatio = aspect,
                           centerX = real_of_int (bbox_x b) + real_of_int (bbox_width b) / 2,
                           centerY = real_of_int (bbox_y b) + real_of_int (bbox_height b) / 2,
                           confidence = calculateTongueConfidence b ar aspect\<rparr>))"

subsection \<open>Candidate resolver: overlap removal and truncation\<close>

record overlap =
  overlap_area :: int
  percentage :: real

definition calculateDetailedOverlap :: "bbox \<Rightarrow> bbox \<Rightarrow> overlap" where
  "calculateDetailedOverlap bbox1 bbox2 =
     (let x1 = max (bbox_x bbox1) (bbox_x bbox2);
          y1 = max (bbox_y bbox1) (bbox_y bbox2);
          x2 = min (bbox_x bbox1 + bbox_width bbox1) (bbox_x bbox2 + bbox_width bbox2);
          y2 = min (bbox_y bbox1 + bbox_height bbox1) (bbox_y bbox2 + bbox_height bbox2)
      in if x1 \<ge> x2 \<or> y1 \<ge> y2 then \<lparr>overlap_area = 0, percentage = 0\<rparr>
         else
           (let overlapArea = (x2 - x1) * (y2 - y1);
                area1 = bbox_width bbox1 * bbox_height bbox1;
                area2 = bbox_width bbox2 * bbox_height bbox2;
                minArea = min area1 area2
            in \<lparr>overlap_area = overlapArea,
                percentage = real_of_int overlapArea / real_of_int minArea\<rparr>))"

definition isOverlapping :: "bbox \<Rightarrow> bbox \<Rightarrow> bool" where
  "isOverlapping bbox1 bbox2 =
     (let overlapThreshold = 0.3 in
      percentage (calculateDetailedOverlap bbox1 bbox2) > overlapThreshold)"

text \<open>The outer loop of \<open>removeOverlappingTongues\<close> on the list \<open>filtered\<close> of the tongues
  kept so far; the inner loop stops at the first kept tongue that overlaps.\<close>

fun remove_overlapping_loop :: "tongue list \<Rightarrow> tongue list \<Rightarrow> tongue list" where
  "remove_overlapping_loop [] filtered = filtered"
| "remove_overlapping_loop (t # tongues) filtered =
     remove_overlapping_loop tongues
       (if list_ex (\<lambda>existing. isOverlapping (bbox t) (bbox existing)) filtered
        then filtered else filtered @ [t])"

definition removeOverlappingTongues :: "tongue list \<Rightarrow> tongue list" where
  "removeOverlappingTongues tongues = remove_overlapping_loop tongues []"

text \<open>The tongues pushed by the loop of \<open>filterTongueShapes\<close>, in the order of the
  contours.\<close>

definition accepted_shapes :: "point list list \<Rightarrow> nat \<Rightarrow> nat \<Rightarrow> tongue list" where
  "accepted_shapes contours imageWidth imageHeight =
     List.map_filter (classifyContour imageWidth imageHeight) contours"

text \<open>
  \<open>tongueShapes.sort((a, b) => b.confidence - a.confidence)\<close> is a stable sort by
  descending confidence; \<open>slice(0, maxCandidates)\<close> truncates a fractional bound towards
  zero.
\<close>

definition filterTongueShapes :: "point list list \<Rightarrow> nat \<Rightarrow> nat \<Rightarrow> nat \<Rightarrow> tongue list" where
  "filterTongueShapes contours imageWidth imageHeight expectedCount =
     (let tongueShapes = sort_key (\<lambda>t. - confidence t)
                           (accepted_shapes contours imageWidth imageHeight);
          filteredTongues = removeOverlappingTongues tongueShapes;
          maxCandidates = max (real expectedCount * 1.5) (real expectedCount + 5)
      in take (nat \<lfloor>maxCandidates\<rfloor>) filteredTongues)"

subsection \<open>Detection entry point: \<open>detectDrumTongues\<close> and its fallback\<close>

text \<open>The shapes the OpenCV detector pushes (\<open>filterTongueContours\<close>).\<close>

record cv_properties =
  prop_area :: real
  prop_aspectRatio :: real
  prop_solidity :: real
  prop_circularity :: real
  prop_compactness :: real

record cv_tongue =
  cv_confidence :: real
  centroid :: "real \<times> real"
  boundingRect :: bbox
  properties :: cv_properties

text \<open>The placeholders \<open>createFallbackTongueDetection\<close> pushes.\<close>

record fallback_tongue =
  fb_x :: real
  fb_y :: real
  fb_width :: real
  fb_height :: real
  fb_area :: real
  fb_confidence :: real
  fb_aspectRatio :: real
  fb_solidity :: real
  isFallback :: bool

text \<open>The entry point returns objects of either kind.\<close>

datatype detected = Detected cv_tongue | Placeholder fallback_tongue

text \<open>
  \<open>openCVResults.sort(...)\<close> is a stable sort by descending confidence, \<open>slice\<close> and
  \<open>filter\<close> are \<open>take\<close> and \<open>filter\<close>.
\<close>

definition convertOpenCVResultsToTongueShapes :: "cv_tongue list \<Rightarrow> nat \<Rightarrow> cv_tongue list" where
  "convertOpenCVResultsToTongueShapes openCVResults expectedCount =
     (let sortedResults =
            take (min (expectedCount + 5) (length openCVResults))
              (sort_key (\<lambda>r. - cv_confidence r) openCVResults)
      in if length sortedResults > expectedCount then
           (let confidenceThreshold = 0.5;
                filteredShapes =
                  filter (\<lambda>shape. cv_confidence shape \<ge> confidenceThreshold) sortedResults
            in take expectedCount filteredShapes)
         else sortedResults)"

text \<open>The \<open>for\<close> loop runs \<open>i\<close> over \<open>0, ..., expectedCount - 1\<close> and pushes one placeholder
  each time.\<close>

definition createFallbackTongueDetection :: "real \<Rightarrow> real \<Rightarrow> nat \<Rightarrow> fallback_tongue list" where
  "createFallbackTongueDetection width height expectedCount =
     (let centerX = width / 2;
          centerY = height / 2;
          radius = min width height * 0.3
      in map (\<lambda>i.
                let angle = (real i / real expectedCount) * 2 * pi;
                    x = centerX + radius * cos angle;
                    y = centerY + radius * sin angle
                in \<lparr>fb_x = x, fb_y = y, fb_width = 40, fb_height = 60, fb_area = 2400,
                    fb_confidence = 0.1, fb_aspectRatio = 1.5, fb_solidity = 0.8,
                    isFallback = True\<rparr>)
           [0 ..< expectedCount])"

text \<open>
  The image as the entry point sees it: its width, its height, and the RGBA byte that the
  canvas holds at each buffer index once the image is drawn on it.
\<close>

record image =
  img_width :: nat
  img_height :: nat
  img_pixels :: "nat \<Rightarrow> nat"

text \<open>
  An exception is a value: \<open>IndexSizeError\<close> is the DOM exception of \<open>getImageData\<close>,
  \<open>TypeError\<close> the one of reading a property of \<open>undefined\<close>, \<open>BackendFailure\<close> anything
  thrown by the detector.
\<close>

datatype error = IndexSizeError | TypeError | BackendFailure

text \<open>
  The canvas is sized to the image, so the buffer of \<open>getImageData(0, 0, width, height)\<close>
  has \<open>width * height * 4\<close> bytes; the call throws when the width or the height is 0.
  The image is a loaded picture, on which the other canvas calls succeed.
\<close>

definition canvas_buffer :: "image \<Rightarrow> nat list" where
  "canvas_buffer img = map (img_pixels img) [0 ..< img_width img * img_height img * 4]"

definition getImageData :: "image \<Rightarrow> error + nat list" where
  "getImageData img =
     (if img_width img = 0 \<or> img_height img = 0 then Inl IndexSizeError
      else Inr (canvas_buffer img))"

text \<open>
  The detector \<open>this.tongueDetector\<close> is \<open>None\<close> while it is not initialised; otherwise it is
  the function \<open>detectTongueWithOpenCV\<close> from buffer, width and height to the shapes found,
  or to the exception thrown.
\<close>

type_synonym detector = "nat list \<Rightarrow> nat \<Rightarrow> nat \<Rightarrow> error + cv_tongue list"

text \<open>
  The test for the detector comes first; the canvas calls follow, outside the \<open>try\<close>
  block, so an exception of \<open>getImageData\<close> leaves the function; the \<open>try\<close> block holds
  the call of the detector and the conversion, and its \<open>catch\<close> returns the placeholders.
\<close>

definition detectDrumTongues :: "detector option \<Rightarrow> image \<Rightarrow> nat \<Rightarrow> error + detected list" where
  "detectDrumTongues tongueDetector img expectedCount =
     (case tongueDetector of
        None \<Rightarrow> Inr []
      | Some detectTongueWithOpenCV \<Rightarrow>
          (case getImageData img of
             Inl err \<Rightarrow> Inl err
           | Inr imageData \<Rightarrow>
               (case detectTongueWithOpenCV imageData (img_width img) (img_height img) of
                  Inr openCVResults \<Rightarrow>
                    Inr (map Detected
                           (convertOpenCVResultsToTongueShapes openCVResults expectedCount))
                | Inl err \<Rightarrow>
                    Inr (map Placeholder
                           (createFallbackTongueDetection
                              (real (img_width img)) (real (img_height img))
                              expectedCount)))))"

text \<open>
  \<open>createInteractiveTongueOverlays\<close> returns at once when the page has no
  \<open>layoutBackground\<close> element. Otherwise its \<open>forEach\<close> reads \<open>tongue.boundingRect.x\<close> of
  every tongue: a placeholder has no \<open>boundingRect\<close>, so the read throws a \<open>TypeError\<close>.
  Without a placeholder it makes one fresh overlay per tongue.
\<close>

fun is_placeholder :: "detected \<Rightarrow> bool" where
  "is_placeholder (Placeholder t) = True"
| "is_placeholder (Detected t) = False"

definition createInteractiveTongueOverlays :: "bool \<Rightarrow> detected list \<Rightarrow> error + overlay list" where
  "createInteractiveTongueOverlays layoutBackground tongues =
     (if \<not> layoutBackground then Inr []
      else if list_ex is_placeholder tongues then Inl TypeError
      else Inr (replicate (length tongues) \<lparr>selected_class = False, number_text = None\<rparr>))"

text \<open>
  The caller \<open>runInteractiveTongueDetection\<close>: it returns at once without an image; inside
  its \<open>try\<close> block it awaits the detection, creates the overlays for a non-empty result and
  alerts "No tongues detected" for an empty one; its \<open>catch\<close> alerts "Detection failed"
  for any exception, of the detection or of the overlays.
\<close>

datatype ui_outcome =
  NoImage | OverlaysCreated "detected list" | AlertNoTongues | AlertDetectionFailed error

definition runInteractiveTongueDetection ::
  "detector option \<Rightarrow> image option \<Rightarrow> bool \<Rightarrow> nat \<Rightarrow> ui_outcome" where
  "runInteractiveTongueDetection tongueDetector analysisImage layoutBackground expectedCount =
     (case analysisImage of
        None \<Rightarrow> NoImage
      | Some img \<Rightarrow>
          (case detectDrumTongues tongueDetector img expectedCount of
             Inr detectedTongues \<Rightarrow>
               (if length detectedTongues > 0 then
                  (case createInteractiveTongueOverlays layoutBackground detectedTongues of
                     Inr overlays \<Rightarrow> OverlaysCreated detectedTongues
                   | Inl err \<Rightarrow> AlertDetectionFailed err)
                else AlertNoTongues)
           | Inl err \<Rightarrow> AlertDetectionFailed err))"

text \<open>Two detectors to run the entry point on, one that finds nothing and one that throws,
  and the opaque black image of a given size.\<close>

definition finds_nothing :: detector where
  "finds_nothing data width height = Inr []"

definition throwing_detector :: detector where
  "throwing_detector data width height = Inl BackendFailure"

definition black_pixels :: "nat \<Rightarrow> nat" where
  "black_pixels i = (if i mod 4 = 3 then 255 else 0)"

definition black_image :: "nat \<Rightarrow> nat \<Rightarrow> image" where
  "black_image width height =
     \<lparr>img_width = width, img_height = height, img_pixels = black_pixels\<rparr>"

subsection \<open>Contour tracer: \<open>findContours\<close> and \<open>traceContour\<close>\<close>

text \<open>
  The edge map is a \<open>Uint8ClampedArray\<close>: a read past its end is \<open>undefined\<close>, and both
  \<open>undefined > threshold\<close> and \<open>undefined <= threshold\<close> are false.
\<close>

definition edge_gt :: "nat list \<Rightarrow> nat \<Rightarrow> nat \<Rightarrow> bool" where
  "edge_gt edgeData index threshold \<longleftrightarrow> index < length edgeData \<and> edgeData ! index > threshold"

definition edge_le :: "nat list \<Rightarrow> nat \<Rightarrow> nat \<Rightarrow> bool" where
  "edge_le edgeData index threshold \<longleftrightarrow> index < length edgeData \<and> edgeData ! index \<le> threshold"

text \<open>
  The visited map is an ordinary array of booleans: a read past its end is \<open>undefined\<close>,
  which is falsy, and a write past its end extends the array, the holes reading as
  \<open>undefined\<close>.
\<close>

definition visited_at :: "bool list \<Rightarrow> nat \<Rightarrow> bool" where
  "visited_at visited index \<longleftrightarrow> index < length visited \<and> visited ! index"

definition mark_visited :: "bool list \<Rightarrow> nat \<Rightarrow> bool list" where
  "mark_visited visited index =
     (if index < length visited then visited[index := True]
      else visited @ replicate (index - length visited) False @ [True])"

text \<open>The eight neighbours in the order the two \<open>for\<close> loops push them.\<close>

definition neighbours :: "int \<Rightarrow> int \<Rightarrow> point list" where
  "neighbours x y =
     [(x - 1, y - 1), (x, y - 1), (x + 1, y - 1),
      (x - 1, y), (x + 1, y),
      (x - 1, y + 1), (x, y + 1), (x + 1, y + 1)]"

lemma visited_at_mark_visited:
  "visited_at (mark_visited visited i) j \<longleftrightarrow> j = i \<or> visited_at visited j"
  by (auto simp: visited_at_def mark_visited_def nth_append nth_list_update)

lemma unvisited_decreases:
  assumes "i < n" and "\<not> visited_at visited i"
  shows "card {j. j < n \<and> \<not> visited_at (mark_visited visited i) j}
       < card {j. j < n \<and> \<not> visited_at visited j}"
proof (rule psubset_card_mono)
  show "finite {j. j < n \<and> \<not> visited_at visited j}" by simp
  show "{j. j < n \<and> \<not> visited_at (mark_visited visited i) j}
      \<subset> {j. j < n \<and> \<not> visited_at visited j}"
    using assms by (auto simp: visited_at_mark_visited)
qed

lemma pixel_index_in_range:
  assumes "0 \<le> x" "x < int width" "0 \<le> y" "y < int height"
  shows "nat (y * int width + x) < width * height"
proof -
  have "y + 1 \<le> int height" using assms by simp
  then have "(y + 1) * int width \<le> int height * int width"
    by (intro mult_right_mono) simp_all
  then have "y * int width + x < int height * int width"
    using assms by (simp add: algebra_simps)
  moreover have "0 \<le> y * int width + x" using assms by simp
  ultimately show ?thesis
    by (simp add: nat_less_iff mult.commute)
qed

text \<open>
  The \<open>while (stack.length > 0)\<close> loop of \<open>traceContour\<close>. The head of the list is the top
  of the stack. The loop changes the caller's visited map in place, so the map is returned
  beside the contour \<open>traced\<close>. The index is only read where the bounds test has passed.
\<close>

function trace_loop ::
  "nat list \<Rightarrow> nat \<Rightarrow> nat \<Rightarrow> nat \<Rightarrow> point list \<Rightarrow> bool list \<Rightarrow> point list
     \<Rightarrow> point list \<times> bool list" where
  "trace_loop edgeData width height threshold [] visited traced = (traced, visited)"
| "trace_loop edgeData width height threshold ((x, y) # stack) visited traced =
     (let index = nat (y * int width + x) in
      if x < 0 \<or> x \<ge> int width \<or> y < 0 \<or> y \<ge> int height
         \<or> visited_at visited index \<or> edge_le edgeData index threshold
      then trace_loop edgeData width height threshold stack visited traced
      else trace_loop edgeData width height threshold
             (rev (neighbours x y) @ stack) (mark_visited visited index) (traced @ [(x, y)]))"
  by pat_completeness auto
termination
proof (relation "measures
    [\<lambda>(edgeData, width, height, threshold, stack, visited, traced).
        card {j. j < width * height \<and> \<not> visited_at visited j},
     \<lambda>(edgeData, width, height, threshold, stack, visited, traced). length stack]",
    goal_cases)
  case 1
  show ?case by simp
next
  case 2
  then show ?case by simp
next
  case (3 edgeData width height threshold x y stack visited traced index)
  then have "index < width * height" "\<not> visited_at visited index"
    by (simp_all add: pixel_index_in_range)
  from unvisited_decreases [OF this] show ?case by simp
qed

definition traceContour ::
  "nat list \<Rightarrow> nat \<Rightarrow> nat \<Rightarrow> int \<Rightarrow> int \<Rightarrow> nat \<Rightarrow> bool list \<Rightarrow> point list \<times> bool list" where
  "traceContour edgeData width height startX startY threshold visited =
     trace_loop edgeData width height threshold [(startX, startY)] visited []"

text \<open>The body of the two nested \<open>for\<close> loops of \<open>findContours\<close>, on the contours found so
  far and the visited map.\<close>

definition scan_pixel ::
  "nat list \<Rightarrow> nat \<Rightarrow> nat \<Rightarrow> nat \<Rightarrow> nat \<Rightarrow> nat
     \<Rightarrow> point list list \<times> bool list \<Rightarrow> point list list \<times> bool list" where
  "scan_pixel edgeData width height threshold y x state =
     (case state of (contours, visited) \<Rightarrow>
        (let index = y * width + x in
         if edge_gt edgeData index threshold \<and> \<not> visited_at visited index then
           (case traceContour edgeData width height (int x) (int y) threshold visited of
              (traced, visited') \<Rightarrow>
                (if length traced > 10 then contours @ [traced] else contours, visited'))
         else (contours, visited)))"

definition findContours :: "nat list \<Rightarrow> nat \<Rightarrow> nat \<Rightarrow> point list list" where
  "findContours edgeData width height =
     (let threshold = 30;
          visited = replicate (width * height) False
      in fst (fold (\<lambda>y. fold (scan_pixel edgeData width height threshold y) [0 ..< width])
                [0 ..< height] ([], visited)))"

text \<open>A small edge map to run the tracer on: 12 by 3, with two blobs of 12 strong pixels
  each and a pixel at the threshold between them.\<close>

definition two_blobs :: "nat list" where
  "two_blobs =
     [255, 255, 255, 255, 0, 0, 0, 0, 200, 200, 200, 200,
      255, 255, 255, 255, 0, 0, 0, 0, 200, 200, 200, 200,
      255, 255, 255, 255, 0, 30, 0, 0, 200, 200, 200, 31]"

subsection \<open>Pipeline stages: \<open>convertToGrayscale\<close>, \<open>applyGaussianBlur\<close>, \<open>applySobelEdgeDetection\<close>\<close>

text \<open>
  A store into a \<open>Uint8ClampedArray\<close> clamps the number to [0, 255] and rounds it to the
  nearest integer, a tie to the even one; \<open>NaN\<close> is stored as 0, and a store past the end
  is ignored, as \<open>xs[i := v]\<close> is.
\<close>

definition to_uint8_clamp :: "real \<Rightarrow> nat" where
  "to_uint8_clamp v =
     (if v \<le> 0 then 0
      else if v \<ge> 255 then 255
      else
        (let f = \<lfloor>v\<rfloor> in
         if v - real_of_int f < 1 / 2 then nat f
         else if v - real_of_int f > 1 / 2 then nat (f + 1)
         else if even f then nat f
         else nat (f + 1)))"

text \<open>
  The loop runs over the pixels \<open>p = i / 4\<close>; \<open>Math.round\<close> is the floor of the number plus
  one half. The gray array has \<open>data.length / 4\<close> entries, rounded down; a last partial
  pixel lies past its end.
\<close>

definition convertToGrayscale :: "nat list \<Rightarrow> nat list" where
  "convertToGrayscale data =
     map (\<lambda>p.
            let r = data ! (4 * p);
                g = data ! (4 * p + 1);
                b = data ! (4 * p + 2);
                gray = \<lfloor>0.299 * real r + 0.587 * real g + 0.114 * real b + 1 / 2\<rfloor>
            in to_uint8_clamp (real_of_int gray))
       [0 ..< length data div 4]"

text \<open>The nine indices \<open>(y + ky) * width + (x + kx)\<close> for \<open>ky, kx = -1, 0, 1\<close>, in the order of
  the two inner loops; \<open>x\<close> and \<open>y\<close> are at least 1 there.\<close>

definition window :: "nat \<Rightarrow> nat \<Rightarrow> nat \<Rightarrow> nat list" where
  "window width x y =
     [(y - 1) * width + (x - 1), (y - 1) * width + x, (y - 1) * width + (x + 1),
      y * width + (x - 1), y * width + x, y * width + (x + 1),
      (y + 1) * width + (x - 1), (y + 1) * width + x, (y + 1) * width + (x + 1)]"

text \<open>The sum of pixel times weight over the window. A pixel read past the end of the
  array is \<open>undefined\<close> and makes the sum \<open>NaN\<close>: \<open>None\<close>.\<close>

definition convolve :: "int list \<Rightarrow> nat list \<Rightarrow> nat \<Rightarrow> nat \<Rightarrow> nat \<Rightarrow> int option" where
  "convolve weights grayData width x y =
     (if list_all (\<lambda>i. i < length grayData) (window width x y)
      then Some (sum_list (map2 (\<lambda>i weight. int (grayData ! i) * weight)
                             (window width x y) weights))
      else None)"

definition applyGaussianBlur :: "nat list \<Rightarrow> nat \<Rightarrow> nat \<Rightarrow> nat list" where
  "applyGaussianBlur grayData width height =
     (let weights = [1, 2, 1, 2, 4, 2, 1, 2, 1];
          kernelSum = 16;
          blurred = replicate (length grayData) 0
      in fold (\<lambda>y. fold (\<lambda>x blurred.
                 blurred[y * width + x :=
                   (case convolve weights grayData width x y of
                      None \<Rightarrow> 0
                    | Some s \<Rightarrow> to_uint8_clamp (real_of_int s / kernelSum))])
               [1 ..< width - 1])
           [1 ..< height - 1] blurred)"

definition applySobelEdgeDetection :: "nat list \<Rightarrow> nat \<Rightarrow> nat \<Rightarrow> nat list" where
  "applySobelEdgeDetection grayData width height =
     (let sobelX = [-1, 0, 1, -2, 0, 2, -1, 0, 1];
          sobelY = [-1, -2, -1, 0, 0, 0, 1, 2, 1];
          edges = replicate (length grayData) 0
      in fold (\<lambda>y. fold (\<lambda>x edges.
                 edges[y * width + x :=
                   (case (convolve sobelX grayData width x y,
                          convolve sobelY grayData width x y) of
                      (Some gx, Some gy) \<Rightarrow>
                        (let magnitude = sqrt (real_of_int (gx * gx + gy * gy))
                         in to_uint8_clamp (min 255 magnitude))
                    | _ \<Rightarrow> 0)])
               [1 ..< width - 1])
           [1 ..< height - 1] edges)"

text \<open>
  Modelled from the spec: the entry point \<open>detect\<close> that runs the stages one after the
  other (grayscale, blur, edges, contours, shape filter), as the data flow of the
  specification has it. The source defines every stage, but no function that chains them.
\<close>

definition detect :: "nat list \<Rightarrow> nat \<Rightarrow> nat \<Rightarrow> nat \<Rightarrow> tongue list" where
  "detect pixels width height expectedCount =
     (let grayData = convertToGrayscale pixels;
          blurred = applyGaussianBlur grayData width height;
          edges = applySobelEdgeDetection blurred width height;
          contours = findContours edges width height
      in filterTongueShapes contours width height expectedCount)"

text \<open>
  The image of the concrete scenario: 100 by 100, opaque black, with one white rectangle
  20 wide and 10 high whose top left pixel is (40, 45).
\<close>

definition rectangle_image :: "nat list" where
  "rectangle_image =
     concat (map (\<lambda>p. if 40 \<le> p mod 100 \<and> p mod 100 < 60 \<and> 45 \<le> p div 100 \<and> p div 100 < 55
                      then [255, 255, 255, 255] else [0, 0, 0, 255])
               [0 ..< 10000])"

subsection \<open>Predicates and tables used in the proofs\<close>

text \<open>
  What holds of the contour being traced and the visited map, relative to the visited map
  \<open>before\<close> the trace began: the points are distinct, in bounds, above the threshold,
  marked now and not marked before; and no mark is ever removed.
\<close>

definition trace_inv ::
  "nat list \<Rightarrow> nat \<Rightarrow> nat \<Rightarrow> nat \<Rightarrow> bool list \<Rightarrow> bool list \<Rightarrow> point list \<Rightarrow> bool" where
  "trace_inv edgeData width height threshold before visited traced \<longleftrightarrow>
     distinct traced
     \<and> (\<forall>p \<in> set traced.
           0 \<le> fst p \<and> fst p < int width \<and> 0 \<le> snd p \<and> snd p < int height
           \<and> edge_gt edgeData (nat (snd p * int width + fst p)) threshold
           \<and> visited_at visited (nat (snd p * int width + fst p))
           \<and> \<not> visited_at before (nat (snd p * int width + fst p)))
     \<and> (\<forall>j. visited_at before j \<longrightarrow> visited_at visited j)"

text \<open>
  What holds of the contours found so far and the visited map during the scan: each contour
  has more than ten points, all distinct, in bounds, above the threshold and marked; and
  the contours are pairwise disjoint.
\<close>

definition scan_inv ::
  "nat list \<Rightarrow> nat \<Rightarrow> nat \<Rightarrow> nat \<Rightarrow> point list list \<times> bool list \<Rightarrow> bool" where
  "scan_inv edgeData width height threshold state \<longleftrightarrow>
     (\<forall>c \<in> set (fst state).
        distinct c \<and> length c > 10
        \<and> (\<forall>p \<in> set c.
              0 \<le> fst p \<and> fst p < int width \<and> 0 \<le> snd p \<and> snd p < int height
              \<and> edge_gt edgeData (nat (snd p * int width + fst p)) threshold
              \<and> visited_at (snd state) (nat (snd p * int width + fst p))))
     \<and> sorted_wrt (\<lambda>a b. set a \<inter> set b = {}) (fst state)"

text \<open>A strong pixel is in bounds and has an edge value above the threshold.\<close>

definition strong :: "nat list \<Rightarrow> nat \<Rightarrow> nat \<Rightarrow> nat \<Rightarrow> point \<Rightarrow> bool" where
  "strong edgeData width height threshold p \<longleftrightarrow>
     0 \<le> fst p \<and> fst p < int width \<and> 0 \<le> snd p \<and> snd p < int height
     \<and> edge_gt edgeData (nat (snd p * int width + fst p)) threshold"

text \<open>
  During a trace: every strong and unmarked neighbour of a traced point waits on the stack,
  and the marks are those from before the trace and those of the traced points.
\<close>

definition frontier_inv ::
  "nat list \<Rightarrow> nat \<Rightarrow> nat \<Rightarrow> nat \<Rightarrow> bool list \<Rightarrow> point list \<Rightarrow> bool list \<Rightarrow> point list \<Rightarrow> bool"
  where
  "frontier_inv edgeData width height threshold before stack visited traced \<longleftrightarrow>
     (\<forall>p \<in> set traced. \<forall>q \<in> set (neighbours (fst p) (snd p)).
         strong edgeData width height threshold q
         \<and> \<not> visited_at visited (nat (snd q * int width + fst q)) \<longrightarrow> q \<in> set stack)
     \<and> (\<forall>j. visited_at visited j \<longleftrightarrow>
            visited_at before j
            \<or> (\<exists>p \<in> set traced. nat (snd p * int width + fst p) = j))"

text \<open>The pixels connected to a start pixel: reached from it by steps to one of the eight
  neighbours, through strong pixels that were not marked before.\<close>

inductive connected ::
  "nat list \<Rightarrow> nat \<Rightarrow> nat \<Rightarrow> nat \<Rightarrow> bool list \<Rightarrow> point \<Rightarrow> point \<Rightarrow> bool"
  for edgeData width height threshold before start where
  start: "connected edgeData width height threshold before start start"
| step: "connected edgeData width height threshold before start p \<Longrightarrow>
         q \<in> set (neighbours (fst p) (snd p)) \<Longrightarrow>
         strong edgeData width height threshold q \<Longrightarrow>
         \<not> visited_at before (nat (snd q * int width + fst q)) \<Longrightarrow>
         connected edgeData width height threshold before start q"

text \<open>The pixel of an array at column \<open>x\<close> and row \<open>y\<close>.\<close>

definition pixel :: "nat list \<Rightarrow> nat \<Rightarrow> nat \<Rightarrow> nat \<Rightarrow> int" where
  "pixel g w x y = int (g ! (y * w + x))"

text \<open>The indicator of the rectangle's columns and of its rows, and the weights the
  smoothing kernel \<open>[1, 2, 1]\<close> gives a column and a row.\<close>

definition in_cols :: "nat \<Rightarrow> int" where
  "in_cols x = (if 40 \<le> x \<and> x < 60 then 1 else 0)"

definition in_rows :: "nat \<Rightarrow> int" where
  "in_rows y = (if 45 \<le> y \<and> y < 55 then 1 else 0)"

definition col_weight :: "nat \<Rightarrow> int" where
  "col_weight x = in_cols (x - 1) + 2 * in_cols x + in_cols (x + 1)"

definition row_weight :: "nat \<Rightarrow> int" where
  "row_weight y = in_rows (y - 1) + 2 * in_rows y + in_rows (y + 1)"

text \<open>The stored value of a smoothed pixel whose window has the weight \<open>p\<close> of white.\<close>

definition smoothed :: "int \<Rightarrow> int" where
  "smoothed p = int (to_uint8_clamp (real_of_int (255 * p) / 16))"

text \<open>The strong edge pixels of the rectangle image: a ring four pixels thick around the
  rectangle's outline, two pixels beyond it on each side, without its four corners.\<close>

definition ring :: "point \<Rightarrow> bool" where
  "ring p \<longleftrightarrow>
     38 \<le> fst p \<and> fst p \<le> 61 \<and> 43 \<le> snd p \<and> snd p \<le> 56
     \<and> \<not> (42 \<le> fst p \<and> fst p \<le> 57 \<and> 47 \<le> snd p \<and> snd p \<le> 52)
     \<and> \<not> ((fst p = 38 \<or> fst p = 61) \<and> (snd p = 43 \<or> snd p = 56))"

text \<open>The squared gradient magnitude at a pixel, from the weights of the three columns
  and the three rows of its window.\<close>

definition strength :: "int \<Rightarrow> int \<Rightarrow> int \<Rightarrow> int \<Rightarrow> int \<Rightarrow> int \<Rightarrow> int" where
  "strength c0 c1 c2 r0 r1 r2 =
     (let gx = (smoothed (c2 * r0) - smoothed (c0 * r0))
               + 2 * (smoothed (c2 * r1) - smoothed (c0 * r1))
               + (smoothed (c2 * r2) - smoothed (c0 * r2));
          gy = (smoothed (c0 * r2) - smoothed (c0 * r0))
               + 2 * (smoothed (c1 * r2) - smoothed (c1 * r0))
               + (smoothed (c2 * r2) - smoothed (c2 * r0))
      in gx * gx + gy * gy)"

text \<open>The edge map of the rectangle image.\<close>

definition rectangle_edges :: "nat list" where
  "rectangle_edges =
     applySobelEdgeDetection
       (applyGaussianBlur (convertToGrayscale rectangle_image) 100 100) 100 100"

subsection \<open>Properties of the selection sequencer\<close>

lemma indexOf_None_iff: "indexOf xs v = None \<longleftrightarrow> v \<notin> set xs"
  by (induction xs) auto

lemma indexOf_splice1: "indexOf xs v = Some i \<Longrightarrow> splice1 i xs = remove1 v xs"
proof (induction xs arbitrary: i)
  case Nil
  then show ?case by simp
next
  case (Cons x xs)
  show ?case
  proof (cases "x = v")
    case True
    with Cons.prems show ?thesis by (simp add: splice1_def)
  next
    case False
    with Cons.prems obtain j where j: "indexOf xs v = Some j" "i = Suc j"
      by auto
    from Cons.IH [OF j(1)] False j(2) show ?thesis
      by (simp add: splice1_def)
  qed
qed

lemma length_update_overlay [simp]: "length (update_overlay k f ovs) = length ovs"
  by (simp add: update_overlay_def)

lemma nth_update_overlay:
  "j < length ovs \<Longrightarrow> update_overlay k f ovs ! j = (if j = k then f (ovs ! j) else ovs ! j)"
  by (simp add: update_overlay_def)

lemma length_renumber [simp]: "length (renumber sel n ovs) = length ovs"
  by (induction sel arbitrary: n ovs) simp_all

lemma renumber_other:
  "k \<notin> set sel \<Longrightarrow> k < length ovs \<Longrightarrow> renumber sel n ovs ! k = ovs ! k"
  by (induction sel arbitrary: n ovs) (simp_all add: nth_update_overlay)

lemma renumber_position:
  "distinct sel \<Longrightarrow> p < length sel \<Longrightarrow> sel ! p < length ovs \<Longrightarrow>
     number_text (renumber sel n ovs ! (sel ! p)) = Some (n + p + 1)"
proof (induction sel arbitrary: n ovs p)
  case Nil
  then show ?case by simp
next
  case (Cons t ts)
  show ?case
  proof (cases p)
    case 0
    with Cons.prems show ?thesis
      by (simp add: renumber_other nth_update_overlay)
  next
    case (Suc q)
    with Cons.prems have "number_text (renumber ts (Suc n)
        (update_overlay t (\<lambda>ov. ov\<lparr>number_text := Some (n + 1)\<rparr>) ovs) ! (ts ! q))
        = Some (Suc n + q + 1)"
      by (intro Cons.IH) simp_all
    with Suc show ?thesis by simp
  qed
qed

lemma distinct_selectTongue:
  "distinct (selectedTongues s) \<Longrightarrow> distinct (selectedTongues (selectTongue i s))"
  by (simp add: selectTongue_def Let_def)

lemma selected_deselectTongue:
  "selectedTongues (deselectTongue i s) = remove1 i (selectedTongues s)"
proof (cases "indexOf (selectedTongues s) i")
  case None
  then have "i \<notin> set (selectedTongues s)" by (simp add: indexOf_None_iff)
  with None show ?thesis by (simp add: deselectTongue_def remove1_idem)
next
  case (Some j)
  then show ?thesis by (simp add: deselectTongue_def Let_def indexOf_splice1)
qed

lemma distinct_deselectTongue:
  "distinct (selectedTongues s) \<Longrightarrow> distinct (selectedTongues (deselectTongue i s))"
  by (simp add: selected_deselectTongue)

lemma distinct_apply_selection_op:
  "distinct (selectedTongues s) \<Longrightarrow> distinct (selectedTongues (apply_selection_op opn s))"
  by (cases opn) (simp_all add: distinct_selectTongue distinct_deselectTongue
      clearTongueSelection_def)

lemma distinct_run_selection:
  "distinct (selectedTongues s) \<Longrightarrow> distinct (selectedTongues (run_selection ops s))"
  by (induction ops arbitrary: s) (simp_all add: distinct_apply_selection_op)

lemma length_overlays_deselectTongue [simp]:
  "length (detectionOverlays (deselectTongue i s)) = length (detectionOverlays s)"
  by (simp add: deselectTongue_def Let_def split: option.splits)

lemma display_order_deselectTongue:
  assumes d: "distinct (selectedTongues s)" and i: "i \<in> set (selectedTongues s)"
    and p: "p < length (remove1 i (selectedTongues s))"
    and k: "remove1 i (selectedTongues s) ! p < length (detectionOverlays s)"
  shows "display_order (deselectTongue i s) (remove1 i (selectedTongues s) ! p) = Some (p + 1)"
proof -
  from i obtain j where j: "indexOf (selectedTongues s) i = Some j"
    by (cases "indexOf (selectedTongues s) i") (simp_all add: indexOf_None_iff)
  let ?sel = "remove1 i (selectedTongues s)"
  let ?ovs = "update_overlay i (\<lambda>ov. \<lparr>selected_class = False, number_text = None\<rparr>)
                (detectionOverlays s)"
  have ovs: "detectionOverlays (deselectTongue i s) = renumber ?sel 0 ?ovs"
    using j by (simp add: deselectTongue_def Let_def indexOf_splice1)
  have "number_text (renumber ?sel 0 ?ovs ! (?sel ! p)) = Some (0 + p + 1)"
    using d p k by (intro renumber_position) simp_all
  with k ovs show ?thesis by (simp add: display_order_def)
qed

text \<open>
  Claim C8. \<open>selectTongue i\<close> leaves the state as it is when \<open>i\<close> is already selected and
  otherwise appends \<open>i\<close> to the ordered selection; \<open>deselectTongue i\<close> leaves the state as
  it is when \<open>i\<close> is not selected and otherwise removes \<open>i\<close> and gives every remaining
  selected tongue (that has an overlay) its new 1-based position as display number; in
  every state reached from a fresh detection by select, deselect and clear the ordered
  selection has no duplicate; and for two different tongues \<open>a\<close> and \<open>b\<close>, after select
  \<open>a\<close>, select \<open>b\<close>, deselect \<open>a\<close> on a fresh detection the order is \<open>[b]\<close> and \<open>b\<close> shows
  the number 1.
\<close>

theorem selection_sequencer:
  "(i \<in> set (selectedTongues s) \<longrightarrow> selectTongue i s = s)
   \<and> (i \<notin> set (selectedTongues s) \<longrightarrow>
        selectedTongues (selectTongue i s) = selectedTongues s @ [i])
   \<and> (i \<notin> set (selectedTongues s) \<longrightarrow> deselectTongue i s = s)
   \<and> (i \<in> set (selectedTongues s) \<and> distinct (selectedTongues s) \<longrightarrow>
        selectedTongues (deselectTongue i s) = filter (\<lambda>k. k \<noteq> i) (selectedTongues s)
        \<and> (\<forall>p < length (selectedTongues (deselectTongue i s)).
              selectedTongues (deselectTongue i s) ! p < length (detectionOverlays s) \<longrightarrow>
              display_order (deselectTongue i s) (selectedTongues (deselectTongue i s) ! p)
                = Some (p + 1)))
   \<and> distinct (selectedTongues (run_selection ops (initial_sequencer n)))
   \<and> (a \<noteq> b \<longrightarrow>
        selectedTongues (run_selection [Select a, Select b, Deselect a] (initial_sequencer n))
          = [b]
        \<and> (b < n \<longrightarrow>
             display_order
               (run_selection [Select a, Select b, Deselect a] (initial_sequencer n)) b
               = Some 1))"
proof (intro conjI impI allI)
  assume "i \<in> set (selectedTongues s)"
  then show "selectTongue i s = s" by (simp add: selectTongue_def)
next
  assume "i \<notin> set (selectedTongues s)"
  then show "selectedTongues (selectTongue i s) = selectedTongues s @ [i]"
    by (simp add: selectTongue_def Let_def)
next
  assume "i \<notin> set (selectedTongues s)"
  then have "indexOf (selectedTongues s) i = None" by (simp add: indexOf_None_iff)
  then show "deselectTongue i s = s" by (simp add: deselectTongue_def)
next
  assume "i \<in> set (selectedTongues s) \<and> distinct (selectedTongues s)"
  then show "selectedTongues (deselectTongue i s) = filter (\<lambda>k. k \<noteq> i) (selectedTongues s)"
    by (simp add: selected_deselectTongue distinct_remove1_removeAll removeAll_filter_not_eq
        cong: filter_cong) (metis)
next
  fix p
  assume a: "i \<in> set (selectedTongues s) \<and> distinct (selectedTongues s)"
    and p: "p < length (selectedTongues (deselectTongue i s))"
    and k: "selectedTongues (deselectTongue i s) ! p < length (detectionOverlays s)"
  from a p k display_order_deselectTongue [of s i p]
  show "display_order (deselectTongue i s) (selectedTongues (deselectTongue i s) ! p)
          = Some (p + 1)"
    by (simp add: selected_deselectTongue)
next
  show "distinct (selectedTongues (run_selection ops (initial_sequencer n)))"
    by (rule distinct_run_selection) (simp add: initial_sequencer_def)
next
  assume "a \<noteq> b"
  then show "selectedTongues
      (run_selection [Select a, Select b, Deselect a] (initial_sequencer n)) = [b]"
    by (simp add: initial_sequencer_def selectTongue_def deselectTongue_def Let_def splice1_def)
next
  assume ab: "a \<noteq> b" and bn: "b < n"
  then show "display_order
      (run_selection [Select a, Select b, Deselect a] (initial_sequencer n)) b = Some 1"
    by (simp add: initial_sequencer_def selectTongue_def deselectTongue_def Let_def splice1_def
        display_order_def update_overlay_def)
qed

theorem selection_sequencer_witness:
  "selectTongue 2 (selectTongue 2 (initial_sequencer 3)) = selectTongue 2 (initial_sequencer 3)
   \<and> selectedTongues (selectTongue 1 (selectTongue 2 (initial_sequencer 3))) = [2, 1]
   \<and> deselectTongue 0 (selectTongue 2 (initial_sequencer 3)) = selectTongue 2 (initial_sequencer 3)
   \<and> selectedTongues (run_selection [Select 0, Select 1, Deselect 0] (initial_sequencer 3)) = [1]
   \<and> display_order (run_selection [Select 0, Select 1, Deselect 0] (initial_sequencer 3)) 1
       = Some 1"
  using selection_sequencer [of 2 "selectTongue 2 (initial_sequencer 3)" "[]" 3 0 1]
    selection_sequencer [of 1 "selectTongue 2 (initial_sequencer 3)" "[]" 3 0 1]
    selection_sequencer [of 0 "selectTongue 2 (initial_sequencer 3)" "[]" 3 0 1]
  by (simp add: initial_sequencer_def selectTongue_def Let_def)

subsection \<open>Properties of the bounding box\<close>

lemma bounds_loop_fold:
  "bounds_loop ps (a, b, c, d) =
     (fold min (map fst ps) a, fold min (map snd ps) b,
      fold max (map fst ps) c, fold max (map snd ps) d)"
proof (induction ps arbitrary: a b c d)
  case Nil
  then show ?case by simp
next
  case (Cons p ps)
  obtain x y where p: "p = (x, y)" by (cases p)
  show ?case unfolding p by (simp add: Cons.IH min.commute max.commute)
qed

lemma bounds_loop_eq:
  "bounds_loop ps (a, b, c, d) =
     (Min (insert a (fst ` set ps)), Min (insert b (snd ` set ps)),
      Max (insert c (fst ` set ps)), Max (insert d (snd ` set ps)))"
  using Min.set_eq_fold [of a "map fst ps"] Min.set_eq_fold [of b "map snd ps"]
    Max.set_eq_fold [of c "map fst ps"] Max.set_eq_fold [of d "map snd ps"]
  by (simp add: bounds_loop_fold del: Min_insert Max_insert)

lemma getBoundingBox_Some:
  assumes "c \<noteq> []"
  shows "getBoundingBox c =
     Some \<lparr>bbox_x = Min (fst ` set c), bbox_y = Min (snd ` set c),
           bbox_width = Max (fst ` set c) - Min (fst ` set c),
           bbox_height = Max (snd ` set c) - Min (snd ` set c)\<rparr>"
proof -
  from assms obtain x y ps where c: "c = (x, y) # ps" by (cases c) auto
  show ?thesis unfolding c
    by (simp add: getBoundingBox_def bounds_loop_eq del: Min_insert Max_insert)
qed

text \<open>
  Claim C10. For every non-empty contour \<open>getBoundingBox\<close> returns the box whose \<open>x\<close> and
  \<open>y\<close> are the least point coordinates and whose width and height are the greatest minus
  the least coordinate; so the width (height) is one less than the number of pixel columns
  (rows) from the least to the greatest, and it is zero when all points share one \<open>x\<close>
  (one \<open>y\<close>).
\<close>

theorem bounding_box:
  assumes "c \<noteq> []"
  shows "\<exists>b. getBoundingBox c = Some b
     \<and> bbox_x b = Min (fst ` set c) \<and> bbox_y b = Min (snd ` set c)
     \<and> bbox_width b = Max (fst ` set c) - Min (fst ` set c)
     \<and> bbox_height b = Max (snd ` set c) - Min (snd ` set c)
     \<and> bbox_width b = int (card {Min (fst ` set c) .. Max (fst ` set c)}) - 1
     \<and> bbox_height b = int (card {Min (snd ` set c) .. Max (snd ` set c)}) - 1
     \<and> ((\<forall>p \<in> set c. fst p = fst (hd c)) \<longrightarrow> bbox_width b = 0)
     \<and> ((\<forall>p \<in> set c. snd p = snd (hd c)) \<longrightarrow> bbox_height b = 0)"
proof -
  have fin: "finite (fst ` set c)" "finite (snd ` set c)" by simp_all
  have ne: "fst ` set c \<noteq> {}" "snd ` set c \<noteq> {}" using assms by simp_all
  have lx: "Min (fst ` set c) \<le> Max (fst ` set c)" using fin ne by simp
  have ly: "Min (snd ` set c) \<le> Max (snd ` set c)" using fin ne by simp
  have cx: "(\<forall>p \<in> set c. fst p = fst (hd c)) \<Longrightarrow> fst ` set c = {fst (hd c)}"
    using assms by (cases c) auto
  have cy: "(\<forall>p \<in> set c. snd p = snd (hd c)) \<Longrightarrow> snd ` set c = {snd (hd c)}"
    using assms by (cases c) auto
  show ?thesis
    using getBoundingBox_Some [OF assms] lx ly cx cy by auto
qed

theorem bounding_box_witness:
  "\<exists>b. getBoundingBox [(3, 7), (3, 9), (3, 8)] = Some b
     \<and> bbox_x b = 3 \<and> bbox_y b = 7 \<and> bbox_width b = 0 \<and> bbox_height b = 2"
  using bounding_box [of "[(3, 7), (3, 9), (3, 8)]"] by auto

subsection \<open>Properties of the shape classifier\<close>

lemma getBoundingBox_nonneg:
  assumes "getBoundingBox c = Some b"
  shows "0 \<le> bbox_width b \<and> 0 \<le> bbox_height b"
proof -
  from assms have ne: "c \<noteq> []" by (auto simp: getBoundingBox_def)
  have "Min (fst ` set c) \<le> Max (fst ` set c)" "Min (snd ` set c) \<le> Max (snd ` set c)"
    using ne by simp_all
  with getBoundingBox_Some [OF ne] assms show ?thesis by auto
qed





subsection \<open>Properties of the candidate resolver\<close>

lemma calculateDetailedOverlap_commute:
  "calculateDetailedOverlap a b = calculateDetailedOverlap b a"
  by (simp add: calculateDetailedOverlap_def Let_def max.commute min.commute)

lemma isOverlapping_commute: "isOverlapping a b = isOverlapping b a"
  by (simp add: isOverlapping_def calculateDetailedOverlap_commute [of a b])

lemma remove_overlapping_loop_separated:
  "sorted_wrt (\<lambda>a b. \<not> isOverlapping (bbox b) (bbox a)) filtered \<Longrightarrow>
   sorted_wrt (\<lambda>a b. \<not> isOverlapping (bbox b) (bbox a))
     (remove_overlapping_loop tongues filtered)"
proof (induction tongues arbitrary: filtered)
  case Nil
  then show ?case by simp
next
  case (Cons t tongues)
  show ?case
  proof (cases "list_ex (\<lambda>existing. isOverlapping (bbox t) (bbox existing)) filtered")
    case True
    with Cons show ?thesis by simp
  next
    case False
    then have "sorted_wrt (\<lambda>a b. \<not> isOverlapping (bbox b) (bbox a)) (filtered @ [t])"
      using Cons.prems by (auto simp: sorted_wrt_append list_ex_iff)
    from Cons.IH [OF this] False show ?thesis by simp
  qed
qed

lemma remove_overlapping_loop_sorted:
  "sorted_wrt P (filtered @ tongues) \<Longrightarrow> sorted_wrt P (remove_overlapping_loop tongues filtered)"
proof (induction tongues arbitrary: filtered)
  case Nil
  then show ?case by simp
next
  case (Cons t tongues)
  from Cons.prems have 1: "sorted_wrt P (filtered @ tongues)"
    by (auto simp: sorted_wrt_append)
  from Cons.prems have 2: "sorted_wrt P ((filtered @ [t]) @ tongues)" by simp
  from Cons.IH [OF 1] Cons.IH [OF 2] show ?case by simp
qed

lemma set_remove_overlapping_loop:
  "set (remove_overlapping_loop tongues filtered) \<subseteq> set filtered \<union> set tongues"
proof (induction tongues arbitrary: filtered)
  case Nil
  then show ?case by simp
next
  case (Cons t tongues)
  from Cons.IH [of filtered] Cons.IH [of "filtered @ [t]"] show ?case by auto
qed

text \<open>
  Claim C2. For every list of tongues, any two entries at different positions of the
  list returned by \<open>removeOverlappingTongues\<close> have an overlap ratio (intersection area of
  their boxes divided by the smaller box area, as \<open>calculateDetailedOverlap\<close> computes it)
  of at most 0.30.
\<close>

theorem overlap_invariant:
  "\<forall>i < length (removeOverlappingTongues tongues).
   \<forall>j < length (removeOverlappingTongues tongues).
     i \<noteq> j \<longrightarrow>
     percentage (calculateDetailedOverlap
                   (bbox (removeOverlappingTongues tongues ! i))
                   (bbox (removeOverlappingTongues tongues ! j))) \<le> 0.30"
proof (intro allI impI)
  fix i j
  let ?out = "removeOverlappingTongues tongues"
  assume i: "i < length ?out" and j: "j < length ?out" and ij: "i \<noteq> j"
  have s: "sorted_wrt (\<lambda>a b. \<not> isOverlapping (bbox b) (bbox a)) ?out"
    unfolding removeOverlappingTongues_def
    by (rule remove_overlapping_loop_separated) simp
  have "\<not> isOverlapping (bbox (?out ! i)) (bbox (?out ! j))"
  proof (cases "i < j")
    case True
    with s j have "\<not> isOverlapping (bbox (?out ! j)) (bbox (?out ! i))"
      by (simp add: sorted_wrt_iff_nth_less)
    then show ?thesis by (simp add: isOverlapping_commute)
  next
    case False
    with ij have "j < i" by simp
    with s i show ?thesis by (simp add: sorted_wrt_iff_nth_less)
  qed
  then show "percentage (calculateDetailedOverlap (bbox (?out ! i)) (bbox (?out ! j))) \<le> 0.30"
    by (simp add: isOverlapping_def)
qed

theorem overlap_invariant_witness:
  "length (removeOverlappingTongues
      (accepted_shapes [[(10, 10), (30, 20)], [(12, 11), (32, 21)], [(50, 50), (70, 60)]]
         100 100)) = 2
   \<and> percentage (calculateDetailedOverlap
         (bbox (removeOverlappingTongues
            (accepted_shapes [[(10, 10), (30, 20)], [(12, 11), (32, 21)], [(50, 50), (70, 60)]]
               100 100) ! 0))
         (bbox (removeOverlappingTongues
            (accepted_shapes [[(10, 10), (30, 20)], [(12, 11), (32, 21)], [(50, 50), (70, 60)]]
               100 100) ! 1))) \<le> 0.30"
proof -
  let ?ts = "accepted_shapes [[(10, 10), (30, 20)], [(12, 11), (32, 21)], [(50, 50), (70, 60)]]
               100 100"
  have len: "length (removeOverlappingTongues ?ts) = 2"
    by (simp add: accepted_shapes_def List.map_filter_def classifyContour_def getBoundingBox_def
        removeOverlappingTongues_def isOverlapping_def calculateDetailedOverlap_def js_div_def
        Let_def)
  with overlap_invariant [of ?ts] show ?thesis by simp
qed

subsection \<open>Properties of the pipeline's result\<close>

lemma accepted_shapes_member:
  assumes "t \<in> set (accepted_shapes contours imageWidth imageHeight)"
  shows "\<exists>c \<in> set contours. classifyContour imageWidth imageHeight c = Some t"
  using assms by (auto simp: accepted_shapes_def List.map_filter_def)

lemma classifyContour_confidence_range:
  assumes "classifyContour imageWidth imageHeight c = Some t"
  shows "0 \<le> confidence t \<and> confidence t \<le> 1"
proof -
  have "0 \<le> calculateTongueConfidence b ar aspect \<and> calculateTongueConfidence b ar aspect \<le> 1"
    for b ar aspect
    by (simp add: calculateTongueConfidence_def Let_def)
  with assms show ?thesis
    by (auto simp: classifyContour_def Let_def split: option.splits if_splits)
qed

lemma classifyContour_positive_box:
  assumes W: "0 < imageWidth" and H: "0 < imageHeight"
    and t: "classifyContour imageWidth imageHeight c = Some t"
  shows "0 < bbox_width (bbox t) \<and> 0 < bbox_height (bbox t)"
proof -
  from t obtain b where b: "getBoundingBox c = Some b"
    by (auto simp: classifyContour_def Let_def split: option.splits)
  from t b have bt: "bbox t = b"
    by (auto simp: classifyContour_def Let_def split: if_splits)
  have pos: "0 < real (imageWidth * imageHeight) * 0.00014" using W H by simp
  from t b have "\<not> real_of_int (bbox_width b * bbox_height b)
                    < real (imageWidth * imageHeight) * 0.00014"
    by (auto simp: classifyContour_def Let_def split: if_splits)
  with pos have "0 < real_of_int (bbox_width b * bbox_height b)" by linarith
  then have "0 < real_of_int (bbox_width b) * real_of_int (bbox_height b)" by simp
  with getBoundingBox_nonneg [OF b] bt show ?thesis
    by (auto simp: zero_less_mult_iff)
qed

lemma filterTongueShapes_length:
  "int (length (filterTongueShapes contours imageWidth imageHeight expectedCount))
     \<le> \<lfloor>max (real expectedCount * 1.5) (real expectedCount + 5)\<rfloor>"
proof -
  define m where "m = \<lfloor>max (real expectedCount * 1.5) (real expectedCount + 5)\<rfloor>"
  have "0 \<le> real expectedCount + 5" by simp
  then have "0 \<le> max (real expectedCount * 1.5) (real expectedCount + 5)"
    by (simp add: le_max_iff_disj)
  then have m0: "0 \<le> m" unfolding m_def by simp
  have "length (filterTongueShapes contours imageWidth imageHeight expectedCount) \<le> nat m"
    by (simp add: filterTongueShapes_def Let_def m_def)
  with m0 have "int (length (filterTongueShapes contours imageWidth imageHeight expectedCount))
      \<le> m" by linarith
  then show ?thesis by (simp only: m_def)
qed

lemma filterTongueShapes_sorted:
  "sorted_wrt (\<lambda>a b. confidence a \<ge> confidence b)
     (filterTongueShapes contours imageWidth imageHeight expectedCount)"
proof -
  let ?ts = "sort_key (\<lambda>t. - confidence t) (accepted_shapes contours imageWidth imageHeight)"
  have "sorted (map (\<lambda>t. - confidence t) ?ts)" by (rule sorted_sort_key)
  then have "sorted_wrt (\<lambda>a b. confidence a \<ge> confidence b) ?ts"
    by (simp add: sorted_map)
  then have "sorted_wrt (\<lambda>a b. confidence a \<ge> confidence b) (removeOverlappingTongues ?ts)"
    unfolding removeOverlappingTongues_def by (intro remove_overlapping_loop_sorted) simp
  then show ?thesis
    by (simp add: filterTongueShapes_def Let_def sorted_wrt_take)
qed

lemma filterTongueShapes_member:
  assumes "t \<in> set (filterTongueShapes contours imageWidth imageHeight expectedCount)"
  shows "\<exists>c \<in> set contours. classifyContour imageWidth imageHeight c = Some t"
proof -
  let ?ts = "sort_key (\<lambda>t. - confidence t) (accepted_shapes contours imageWidth imageHeight)"
  from assms have "t \<in> set (removeOverlappingTongues ?ts)"
    by (auto simp: filterTongueShapes_def Let_def dest: in_set_takeD)
  with set_remove_overlapping_loop [of ?ts "[]"] have "t \<in> set ?ts"
    by (auto simp: removeOverlappingTongues_def)
  then show ?thesis by (simp add: accepted_shapes_member)
qed

lemma convertOpenCVResultsToTongueShapes_length:
  "length (convertOpenCVResultsToTongueShapes rs expectedCount) \<le> expectedCount"
  by (simp add: convertOpenCVResultsToTongueShapes_def Let_def)

lemma convertOpenCVResultsToTongueShapes_sorted:
  "sorted_wrt (\<lambda>a b. cv_confidence a \<ge> cv_confidence b)
     (convertOpenCVResultsToTongueShapes rs expectedCount)"
proof -
  let ?ss = "sort_key (\<lambda>r. - cv_confidence r) rs"
  have "sorted (map (\<lambda>r. - cv_confidence r) ?ss)" by (rule sorted_sort_key)
  then have "sorted_wrt (\<lambda>a b. cv_confidence a \<ge> cv_confidence b) ?ss"
    by (simp add: sorted_map)
  then show ?thesis
    by (simp add: convertOpenCVResultsToTongueShapes_def Let_def sorted_wrt_take
        sorted_wrt_filter)
qed

text \<open>
  Claim C3. For an image of positive width and height and an expected count of at least 1,
  whatever contours the earlier stages hand over, the list \<open>filterTongueShapes\<close> returns
  has at most max(expectedCount * 1.5, expectedCount + 5) entries (rounded down), is
  sorted by descending confidence, and each entry has a confidence in [0, 1] and a box of
  strictly positive width and height. The conversion of the OpenCV detector's results
  keeps within the same bound and the same order.
\<close>

theorem detect_postcondition:
  assumes "0 < imageWidth" and "0 < imageHeight" and "1 \<le> expectedCount"
  shows "int (length (filterTongueShapes contours imageWidth imageHeight expectedCount))
       \<le> \<lfloor>max (real expectedCount * 1.5) (real expectedCount + 5)\<rfloor>
     \<and> sorted_wrt (\<lambda>a b. confidence a \<ge> confidence b)
         (filterTongueShapes contours imageWidth imageHeight expectedCount)
     \<and> (\<forall>t \<in> set (filterTongueShapes contours imageWidth imageHeight expectedCount).
          0 \<le> confidence t \<and> confidence t \<le> 1
          \<and> 0 < bbox_width (bbox t) \<and> 0 < bbox_height (bbox t))
     \<and> int (length (convertOpenCVResultsToTongueShapes openCVResults expectedCount))
       \<le> \<lfloor>max (real expectedCount * 1.5) (real expectedCount + 5)\<rfloor>
     \<and> sorted_wrt (\<lambda>a b. cv_confidence a \<ge> cv_confidence b)
         (convertOpenCVResultsToTongueShapes openCVResults expectedCount)"
proof (intro conjI ballI)
  show "int (length (filterTongueShapes contours imageWidth imageHeight expectedCount))
       \<le> \<lfloor>max (real expectedCount * 1.5) (real expectedCount + 5)\<rfloor>"
    by (rule filterTongueShapes_length)
  show "sorted_wrt (\<lambda>a b. confidence a \<ge> confidence b)
         (filterTongueShapes contours imageWidth imageHeight expectedCount)"
    by (rule filterTongueShapes_sorted)
  show "sorted_wrt (\<lambda>a b. cv_confidence a \<ge> cv_confidence b)
         (convertOpenCVResultsToTongueShapes openCVResults expectedCount)"
    by (rule convertOpenCVResultsToTongueShapes_sorted)
  have "real expectedCount \<le> max (real expectedCount * 1.5) (real expectedCount + 5)"
    by (simp add: le_max_iff_disj)
  then have "int expectedCount \<le> \<lfloor>max (real expectedCount * 1.5) (real expectedCount + 5)\<rfloor>"
    by (simp only: le_floor_iff of_int_of_nat_eq)
  with convertOpenCVResultsToTongueShapes_length [of openCVResults expectedCount]
  show "int (length (convertOpenCVResultsToTongueShapes openCVResults expectedCount))
       \<le> \<lfloor>max (real expectedCount * 1.5) (real expectedCount + 5)\<rfloor>"
    by linarith
next
  fix t
  assume "t \<in> set (filterTongueShapes contours imageWidth imageHeight expectedCount)"
  then obtain c where c: "classifyContour imageWidth imageHeight c = Some t"
    using filterTongueShapes_member by blast
  from classifyContour_confidence_range [OF c]
  show "0 \<le> confidence t" "confidence t \<le> 1" by simp_all
  from classifyContour_positive_box [OF assms(1,2) c]
  show "0 < bbox_width (bbox t)" "0 < bbox_height (bbox t)" by simp_all
qed

theorem detect_postcondition_witness:
  "int (length (filterTongueShapes
          [[(10, 10), (30, 20)], [(12, 11), (32, 21)], [(50, 50), (90, 80)]] 100 100 1)) \<le> 6
   \<and> map confidence (filterTongueShapes
          [[(10, 10), (30, 20)], [(12, 11), (32, 21)], [(50, 50), (90, 80)]] 100 100 1)
       = [0.8, 0.7]"
proof -
  have W: "(0::nat) < 100" and n: "(1::nat) \<le> 1" by simp_all
  have "map confidence (filterTongueShapes
          [[(10, 10), (30, 20)], [(12, 11), (32, 21)], [(50, 50), (90, 80)]] 100 100 1)
       = [0.8, 0.7]"
    by (simp add: filterTongueShapes_def accepted_shapes_def List.map_filter_def
        classifyContour_def getBoundingBox_def calculateTongueConfidence_def
        removeOverlappingTongues_def isOverlapping_def calculateDetailedOverlap_def js_div_def
        Let_def)
  with detect_postcondition [OF W W n,
      of "[[(10, 10), (30, 20)], [(12, 11), (32, 21)], [(50, 50), (90, 80)]]" "[]"]
  show ?thesis by simp
qed

subsection \<open>Properties of the fallback generator\<close>

lemma createFallbackTongueDetection_length:
  "length (createFallbackTongueDetection width height expectedCount) = expectedCount"
  by (simp add: createFallbackTongueDetection_def Let_def)

lemma createFallbackTongueDetection_nth:
  "i < expectedCount \<Longrightarrow>
   createFallbackTongueDetection width height expectedCount ! i =
     \<lparr>fb_x = width / 2 + 0.3 * min width height * cos (real i / real expectedCount * 2 * pi),
      fb_y = height / 2 + 0.3 * min width height * sin (real i / real expectedCount * 2 * pi),
      fb_width = 40, fb_height = 60, fb_area = 2400, fb_confidence = 0.1,
      fb_aspectRatio = 1.5, fb_solidity = 0.8, isFallback = True\<rparr>"
  by (simp add: createFallbackTongueDetection_def Let_def mult.commute)

lemma on_circle:
  "(c + r * cos a - c)\<^sup>2 + (d + r * sin a - d)\<^sup>2 = (r::real)\<^sup>2"
proof -
  have "(r * cos a)\<^sup>2 + (r * sin a)\<^sup>2 = r\<^sup>2 * ((cos a)\<^sup>2 + (sin a)\<^sup>2)"
    by (simp only: power_mult_distrib distrib_left)
  also have "\<dots> = r\<^sup>2" by (simp only: cos_squared_eq) simp
  finally show ?thesis by simp
qed

text \<open>
  Claim C7. For every width, height and expected count, \<open>createFallbackTongueDetection\<close>
  returns exactly \<open>expectedCount\<close> placeholders; placeholder \<open>i\<close> has \<open>isFallback\<close> set,
  confidence 0.1, the fixed size 40 by 60, and lies at angle (i / expectedCount) * 2 * pi on
  the circle of radius 0.3 * min(width, height) around (width / 2, height / 2). For width
  600, height 600 and expected count 8 these are 8 placeholders on the circle of radius 180
  around (300, 300).
\<close>

theorem fallback_generator:
  "length (createFallbackTongueDetection width height expectedCount) = expectedCount
   \<and> (\<forall>i < expectedCount.
        createFallbackTongueDetection width height expectedCount ! i =
          \<lparr>fb_x = width / 2
                   + 0.3 * min width height * cos (real i / real expectedCount * 2 * pi),
           fb_y = height / 2
                   + 0.3 * min width height * sin (real i / real expectedCount * 2 * pi),
           fb_width = 40, fb_height = 60, fb_area = 2400, fb_confidence = 0.1,
           fb_aspectRatio = 1.5, fb_solidity = 0.8, isFallback = True\<rparr>)
   \<and> length (createFallbackTongueDetection 600 600 8) = 8
   \<and> (\<forall>i < 8.
        isFallback (createFallbackTongueDetection 600 600 8 ! i)
        \<and> fb_confidence (createFallbackTongueDetection 600 600 8 ! i) = 0.1
        \<and> fb_width (createFallbackTongueDetection 600 600 8 ! i) = 40
        \<and> fb_height (createFallbackTongueDetection 600 600 8 ! i) = 60
        \<and> (fb_x (createFallbackTongueDetection 600 600 8 ! i) - 300)\<^sup>2
            + (fb_y (createFallbackTongueDetection 600 600 8 ! i) - 300)\<^sup>2 = 180\<^sup>2)"
proof (intro conjI allI impI)
  show "length (createFallbackTongueDetection width height expectedCount) = expectedCount"
    by (rule createFallbackTongueDetection_length)
  show "length (createFallbackTongueDetection 600 600 8) = 8"
    by (rule createFallbackTongueDetection_length)
next
  fix i assume "i < expectedCount"
  then show "createFallbackTongueDetection width height expectedCount ! i =
          \<lparr>fb_x = width / 2
                   + 0.3 * min width height * cos (real i / real expectedCount * 2 * pi),
           fb_y = height / 2
                   + 0.3 * min width height * sin (real i / real expectedCount * 2 * pi),
           fb_width = 40, fb_height = 60, fb_area = 2400, fb_confidence = 0.1,
           fb_aspectRatio = 1.5, fb_solidity = 0.8, isFallback = True\<rparr>"
    by (rule createFallbackTongueDetection_nth)
next
  fix i :: nat assume i: "i < 8"
  note nth = createFallbackTongueDetection_nth [OF i, of 600 600]
  show "isFallback (createFallbackTongueDetection 600 600 8 ! i)"
    "fb_confidence (createFallbackTongueDetection 600 600 8 ! i) = 0.1"
    "fb_width (createFallbackTongueDetection 600 600 8 ! i) = 40"
    "fb_height (createFallbackTongueDetection 600 600 8 ! i) = 60"
    by (simp_all add: nth)
  have "(fb_x (createFallbackTongueDetection 600 600 8 ! i) - 300)\<^sup>2
      + (fb_y (createFallbackTongueDetection 600 600 8 ! i) - 300)\<^sup>2
      = (300 + 180 * cos (real i / 8 * 2 * pi) - 300)\<^sup>2
        + (300 + 180 * sin (real i / 8 * 2 * pi) - 300)\<^sup>2"
    by (simp add: nth)
  also have "\<dots> = 180\<^sup>2" by (rule on_circle)
  finally show "(fb_x (createFallbackTongueDetection 600 600 8 ! i) - 300)\<^sup>2
      + (fb_y (createFallbackTongueDetection 600 600 8 ! i) - 300)\<^sup>2 = 180\<^sup>2" .
qed

theorem fallback_generator_witness:
  "length (createFallbackTongueDetection 600 600 8) = 8
   \<and> createFallbackTongueDetection 600 600 8 ! 0 =
       \<lparr>fb_x = 480, fb_y = 300, fb_width = 40, fb_height = 60, fb_area = 2400,
        fb_confidence = 0.1, fb_aspectRatio = 1.5, fb_solidity = 0.8, isFallback = True\<rparr>
   \<and> createFallbackTongueDetection 600 600 8 ! 4 =
       \<lparr>fb_x = 120, fb_y = 300, fb_width = 40, fb_height = 60, fb_area = 2400,
        fb_confidence = 0.1, fb_aspectRatio = 1.5, fb_solidity = 0.8, isFallback = True\<rparr>"
proof -
  have a: "real 4 / real 8 * 2 * pi = pi" by simp
  from fallback_generator [of 600 600 8] have
    "length (createFallbackTongueDetection 600 600 8) = 8"
    "createFallbackTongueDetection 600 600 8 ! 0 =
       \<lparr>fb_x = 600 / 2 + 0.3 * min 600 600 * cos (real 0 / real 8 * 2 * pi),
        fb_y = 600 / 2 + 0.3 * min 600 600 * sin (real 0 / real 8 * 2 * pi),
        fb_width = 40, fb_height = 60, fb_area = 2400, fb_confidence = 0.1,
        fb_aspectRatio = 1.5, fb_solidity = 0.8, isFallback = True\<rparr>"
    "createFallbackTongueDetection 600 600 8 ! 4 =
       \<lparr>fb_x = 600 / 2 + 0.3 * min 600 600 * cos (real 4 / real 8 * 2 * pi),
        fb_y = 600 / 2 + 0.3 * min 600 600 * sin (real 4 / real 8 * 2 * pi),
        fb_width = 40, fb_height = 60, fb_area = 2400, fb_confidence = 0.1,
        fb_aspectRatio = 1.5, fb_solidity = 0.8, isFallback = True\<rparr>"
    by simp_all
  then show ?thesis by (simp add: a)
qed

subsection \<open>Properties of the detection entry point\<close>

lemma length_canvas_buffer: "length (canvas_buffer img) = img_width img * img_height img * 4"
  by (simp add: canvas_buffer_def)

lemma getImageData_positive:
  "0 < img_width img \<Longrightarrow> 0 < img_height img \<Longrightarrow> getImageData img = Inr (canvas_buffer img)"
  by (simp add: getImageData_def)

lemma getImageData_empty:
  "img_width img = 0 \<or> img_height img = 0 \<Longrightarrow> getImageData img = Inl IndexSizeError"
  by (simp add: getImageData_def)

lemma detectDrumTongues_positive:
  assumes "0 < img_width img" and "0 < img_height img"
  shows "detectDrumTongues (Some detectTongueWithOpenCV) img expectedCount =
     (case detectTongueWithOpenCV (canvas_buffer img) (img_width img) (img_height img) of
        Inr openCVResults \<Rightarrow>
          Inr (map Detected (convertOpenCVResultsToTongueShapes openCVResults expectedCount))
      | Inl err \<Rightarrow>
          Inr (map Placeholder
                 (createFallbackTongueDetection
                    (real (img_width img)) (real (img_height img)) expectedCount)))"
  by (simp add: detectDrumTongues_def getImageData_positive [OF assms])

lemma no_placeholder_in_detected: "\<not> list_ex is_placeholder (map Detected shapes)"
  by (induction shapes) simp_all

text \<open>
  Claim C1, as the code has it. The entry point has no shape validation of its own. The
  buffer is read from a canvas of the image's size, so its length is always
  width * height * 4. Without a detector the entry point returns the empty list for every
  image, also one of width or height 0. With a detector, an image of width or height 0
  makes \<open>getImageData\<close> throw its \<open>IndexSizeError\<close> before the detector is called and
  outside the \<open>try\<close> block, so the call fails with that error and returns no list; an
  image of positive size goes to the detector, and the call returns a list.
\<close>

theorem entry_point_validates_nothing:
  "detectDrumTongues None img expectedCount = Inr []
   \<and> (\<forall>imageData. getImageData img = Inr imageData \<longrightarrow>
         length imageData = img_width img * img_height img * 4)
   \<and> (img_width img = 0 \<or> img_height img = 0 \<longrightarrow>
         detectDrumTongues (Some detectTongueWithOpenCV) img expectedCount
           = Inl IndexSizeError)
   \<and> (0 < img_width img \<and> 0 < img_height img \<longrightarrow>
         detectDrumTongues (Some detectTongueWithOpenCV) img expectedCount =
           (case detectTongueWithOpenCV (canvas_buffer img) (img_width img) (img_height img) of
              Inr openCVResults \<Rightarrow>
                Inr (map Detected
                       (convertOpenCVResultsToTongueShapes openCVResults expectedCount))
            | Inl err \<Rightarrow>
                Inr (map Placeholder
                       (createFallbackTongueDetection
                          (real (img_width img)) (real (img_height img)) expectedCount))))"
proof (intro conjI allI impI)
  show "detectDrumTongues None img expectedCount = Inr []"
    by (simp add: detectDrumTongues_def)
next
  fix imageData assume "getImageData img = Inr imageData"
  then show "length imageData = img_width img * img_height img * 4"
    by (auto simp: getImageData_def length_canvas_buffer split: if_splits)
next
  assume "img_width img = 0 \<or> img_height img = 0"
  then show "detectDrumTongues (Some detectTongueWithOpenCV) img expectedCount
      = Inl IndexSizeError"
    by (simp add: detectDrumTongues_def getImageData_empty)
next
  assume "0 < img_width img \<and> 0 < img_height img"
  then show "detectDrumTongues (Some detectTongueWithOpenCV) img expectedCount =
      (case detectTongueWithOpenCV (canvas_buffer img) (img_width img) (img_height img) of
         Inr openCVResults \<Rightarrow>
           Inr (map Detected (convertOpenCVResultsToTongueShapes openCVResults expectedCount))
       | Inl err \<Rightarrow>
           Inr (map Placeholder
                  (createFallbackTongueDetection
                     (real (img_width img)) (real (img_height img)) expectedCount)))"
    by (simp add: detectDrumTongues_positive)
qed

theorem entry_point_validates_nothing_witness:
  "detectDrumTongues None (black_image 0 0) 8 = Inr []
   \<and> detectDrumTongues (Some finds_nothing) (black_image 0 0) 8 = Inl IndexSizeError
   \<and> detectDrumTongues (Some finds_nothing) (black_image 2 2) 8 = Inr []
   \<and> length (canvas_buffer (black_image 2 2)) = 16"
  using entry_point_validates_nothing
    [where img = "black_image 0 0" and expectedCount = 8
       and detectTongueWithOpenCV = finds_nothing]
    entry_point_validates_nothing
    [where img = "black_image 2 2" and expectedCount = 8
       and detectTongueWithOpenCV = finds_nothing]
  by (simp add: black_image_def finds_nothing_def length_canvas_buffer
      convertOpenCVResultsToTongueShapes_def)

text \<open>
  Against claim C1 as stated: for the image of width 0 and height 0, with no detector
  initialised, the entry point raises nothing and returns the empty list.
\<close>

theorem input_shape_error_counterexample:
  "img_width (black_image 0 0) = 0
   \<and> img_height (black_image 0 0) = 0
   \<and> detectDrumTongues None (black_image 0 0) 8 = Inr []"
  by (simp add: detectDrumTongues_def black_image_def)

text \<open>
  Claim C6, as the code has it. For an image of positive size: when the detector throws,
  the entry point catches the exception and returns the fallback placeholders; when the
  detector returns a list, the entry point returns its conversion, which holds no
  placeholder, so an empty result stays empty, and the caller then alerts that no tongues
  were detected. A placeholder in the returned list therefore means that the detector
  threw.
\<close>

theorem fallback_on_exception_only:
  "(0 < img_width img \<and> 0 < img_height img
      \<and> detectTongueWithOpenCV (canvas_buffer img) (img_width img) (img_height img) = Inl err
     \<longrightarrow>
      detectDrumTongues (Some detectTongueWithOpenCV) img expectedCount =
        Inr (map Placeholder
               (createFallbackTongueDetection
                  (real (img_width img)) (real (img_height img)) expectedCount)))
   \<and> (0 < img_width img \<and> 0 < img_height img
      \<and> detectTongueWithOpenCV (canvas_buffer img) (img_width img) (img_height img)
          = Inr openCVResults \<longrightarrow>
      detectDrumTongues (Some detectTongueWithOpenCV) img expectedCount =
        Inr (map Detected (convertOpenCVResultsToTongueShapes openCVResults expectedCount)))
   \<and> (0 < img_width img \<and> 0 < img_height img
      \<and> detectTongueWithOpenCV (canvas_buffer img) (img_width img) (img_height img) = Inr []
     \<longrightarrow>
      detectDrumTongues (Some detectTongueWithOpenCV) img expectedCount = Inr []
      \<and> runInteractiveTongueDetection (Some detectTongueWithOpenCV) (Some img)
            layoutBackground expectedCount = AlertNoTongues)
   \<and> (detectDrumTongues tongueDetector img expectedCount = Inr shapes
      \<and> list_ex is_placeholder shapes \<longrightarrow>
      (\<exists>detector thrown.
          tongueDetector = Some detector
          \<and> detector (canvas_buffer img) (img_width img) (img_height img) = Inl thrown))"
proof (intro conjI impI)
  assume "0 < img_width img \<and> 0 < img_height img
      \<and> detectTongueWithOpenCV (canvas_buffer img) (img_width img) (img_height img) = Inl err"
  then show "detectDrumTongues (Some detectTongueWithOpenCV) img expectedCount =
        Inr (map Placeholder
               (createFallbackTongueDetection
                  (real (img_width img)) (real (img_height img)) expectedCount))"
    by (simp add: detectDrumTongues_positive)
next
  assume "0 < img_width img \<and> 0 < img_height img
      \<and> detectTongueWithOpenCV (canvas_buffer img) (img_width img) (img_height img)
          = Inr openCVResults"
  then show "detectDrumTongues (Some detectTongueWithOpenCV) img expectedCount =
        Inr (map Detected (convertOpenCVResultsToTongueShapes openCVResults expectedCount))"
    by (simp add: detectDrumTongues_positive)
next
  assume e: "0 < img_width img \<and> 0 < img_height img
      \<and> detectTongueWithOpenCV (canvas_buffer img) (img_width img) (img_height img) = Inr []"
  then show d: "detectDrumTongues (Some detectTongueWithOpenCV) img expectedCount = Inr []"
    by (simp add: detectDrumTongues_positive convertOpenCVResultsToTongueShapes_def)
  then show "runInteractiveTongueDetection (Some detectTongueWithOpenCV) (Some img)
      layoutBackground expectedCount = AlertNoTongues"
    by (simp add: runInteractiveTongueDetection_def)
next
  assume a: "detectDrumTongues tongueDetector img expectedCount = Inr shapes
      \<and> list_ex is_placeholder shapes"
  show "\<exists>detector thrown.
          tongueDetector = Some detector
          \<and> detector (canvas_buffer img) (img_width img) (img_height img) = Inl thrown"
  proof (cases tongueDetector)
    case None
    with a show ?thesis by (auto simp: detectDrumTongues_def)
  next
    case (Some detector)
    show ?thesis
    proof (cases "detector (canvas_buffer img) (img_width img) (img_height img)")
      case (Inl thrown)
      with Some show ?thesis by blast
    next
      case (Inr results)
      with a Some have "shapes = map Detected (convertOpenCVResultsToTongueShapes results
          expectedCount)"
        by (auto simp: detectDrumTongues_def getImageData_def split: if_splits)
      with a no_placeholder_in_detected show ?thesis by blast
    qed
  qed
qed

theorem fallback_on_exception_only_witness:
  "detectDrumTongues (Some throwing_detector) (black_image 600 600) 8 =
     Inr (map Placeholder (createFallbackTongueDetection 600 600 8))
   \<and> detectDrumTongues (Some finds_nothing) (black_image 600 600) 8 = Inr []
   \<and> runInteractiveTongueDetection (Some finds_nothing) (Some (black_image 600 600)) True 8
       = AlertNoTongues"
  using fallback_on_exception_only
    [where detectTongueWithOpenCV = throwing_detector and img = "black_image 600 600"
       and err = BackendFailure and expectedCount = 8 and openCVResults = "[]"
       and tongueDetector = None and shapes = "[]" and layoutBackground = True]
    fallback_on_exception_only
    [where detectTongueWithOpenCV = finds_nothing and img = "black_image 600 600"
       and err = BackendFailure and expectedCount = 8 and openCVResults = "[]"
       and tongueDetector = None and shapes = "[]" and layoutBackground = True]
  by (simp add: finds_nothing_def throwing_detector_def black_image_def
      convertOpenCVResultsToTongueShapes_def)

text \<open>
  Against claim C6 as stated: with a detector that returns the empty list, an image of
  600 by 600 and an expected count of 8, the entry point returns the empty list, not the
  8 placeholders, and the caller alerts that no tongues were detected.
\<close>

theorem fallback_on_empty_counterexample:
  "detectDrumTongues (Some finds_nothing) (black_image 600 600) 8 = Inr []
   \<and> length (createFallbackTongueDetection 600 600 8) = 8
   \<and> runInteractiveTongueDetection (Some finds_nothing) (Some (black_image 600 600)) True 8
       = AlertNoTongues"
  by (simp add: detectDrumTongues_def getImageData_def finds_nothing_def black_image_def
      convertOpenCVResultsToTongueShapes_def runInteractiveTongueDetection_def
      createFallbackTongueDetection_def Let_def)

text \<open>
  What the caller makes of the placeholders is another matter: on a page with a
  \<open>layoutBackground\<close> element the overlays cannot be made for them, and the caller alerts
  that the detection failed.
\<close>

lemma placeholders_fail_in_caller:
  "runInteractiveTongueDetection (Some throwing_detector) (Some (black_image 600 600)) True 8
     = AlertDetectionFailed TypeError"
proof -
  have d: "detectDrumTongues (Some throwing_detector) (black_image 600 600) 8 =
      Inr (map Placeholder (createFallbackTongueDetection 600 600 8))"
    by (simp add: detectDrumTongues_def getImageData_def throwing_detector_def black_image_def)
  have l: "length (createFallbackTongueDetection 600 600 8) = 8"
    by (simp add: createFallbackTongueDetection_def Let_def)
  then obtain t ts where c: "createFallbackTongueDetection 600 600 8 = t # ts"
    by (cases "createFallbackTongueDetection 600 600 8") simp_all
  show ?thesis
    unfolding runInteractiveTongueDetection_def
    by (simp add: d l c createInteractiveTongueOverlays_def)
qed

subsection \<open>Properties of the contour tracer\<close>

lemma trace_inv_step:
  assumes len: "width * height \<le> length edgeData"
    and inv: "trace_inv edgeData width height threshold before visited traced"
    and acc: "\<not> (x < 0 \<or> x \<ge> int width \<or> y < 0 \<or> y \<ge> int height
         \<or> visited_at visited (nat (y * int width + x))
         \<or> edge_le edgeData (nat (y * int width + x)) threshold)"
  shows "trace_inv edgeData width height threshold before
           (mark_visited visited (nat (y * int width + x))) (traced @ [(x, y)])"
proof -
  let ?i = "nat (y * int width + x)"
  from acc have b: "0 \<le> x" "x < int width" "0 \<le> y" "y < int height"
    and nv: "\<not> visited_at visited ?i" and ne: "\<not> edge_le edgeData ?i threshold"
    by auto
  from pixel_index_in_range [OF b] len have "?i < length edgeData" by simp
  with ne have gt: "edge_gt edgeData ?i threshold"
    by (simp add: edge_le_def edge_gt_def)
  from inv nv have fresh: "(x, y) \<notin> set traced"
    by (auto simp: trace_inv_def)
  from inv nv have nb: "\<not> visited_at before ?i"
    by (auto simp: trace_inv_def)
  from inv b gt fresh nb show ?thesis
    by (auto simp: trace_inv_def visited_at_mark_visited)
qed

lemma trace_loop_inv:
  assumes "width * height \<le> length edgeData"
    and "trace_inv edgeData width height threshold before visited traced"
  shows "trace_inv edgeData width height threshold before
           (snd (trace_loop edgeData width height threshold stack visited traced))
           (fst (trace_loop edgeData width height threshold stack visited traced))"
  using assms
proof (induction edgeData width height threshold stack visited traced
    rule: trace_loop.induct)
  case (1 edgeData width height threshold visited traced)
  then show ?case by simp
next
  case (2 edgeData width height threshold x y stack visited traced)
  let ?i = "nat (y * int width + x)"
  show ?case
  proof (cases "x < 0 \<or> x \<ge> int width \<or> y < 0 \<or> y \<ge> int height
         \<or> visited_at visited ?i \<or> edge_le edgeData ?i threshold")
    case True
    with "2.IH"(1) [OF refl True "2.prems"] show ?thesis by (simp add: Let_def)
  next
    case False
    from trace_inv_step [OF "2.prems" False]
    have "trace_inv edgeData width height threshold before
            (mark_visited visited ?i) (traced @ [(x, y)])" .
    with "2.IH"(2) [OF refl False "2.prems"(1)] False show ?thesis
      by (simp add: Let_def)
  qed
qed

lemma traceContour_inv:
  assumes "width * height \<le> length edgeData"
    and "traceContour edgeData width height startX startY threshold visited = (traced, visited')"
  shows "trace_inv edgeData width height threshold visited visited' traced"
proof -
  have "trace_inv edgeData width height threshold visited visited []"
    by (simp add: trace_inv_def)
  from trace_loop_inv [OF assms(1) this, of "[(startX, startY)]"] assms(2)
  show ?thesis by (simp add: traceContour_def)
qed

lemma scan_pixel_inv:
  assumes len: "width * height \<le> length edgeData"
    and inv: "scan_inv edgeData width height threshold state"
  shows "scan_inv edgeData width height threshold
           (scan_pixel edgeData width height threshold y x state)"
proof -
  obtain contours visited where st: "state = (contours, visited)" by (cases state)
  show ?thesis
  proof (cases "edge_gt edgeData (y * width + x) threshold
                \<and> \<not> visited_at visited (y * width + x)")
    case False
    with inv st show ?thesis by (auto simp: scan_pixel_def Let_def)
  next
    case True
    obtain traced visited' where
      tr: "traceContour edgeData width height (int x) (int y) threshold visited
            = (traced, visited')"
      by (cases "traceContour edgeData width height (int x) (int y) threshold visited")
    from traceContour_inv [OF len tr]
    have ti: "trace_inv edgeData width height threshold visited visited' traced" .
    have keep: "scan_inv edgeData width height threshold (contours, visited')"
      using inv st ti by (auto simp: scan_inv_def trace_inv_def)
    show ?thesis
    proof (cases "length traced > 10")
      case False
      with True tr st keep show ?thesis by (simp add: scan_pixel_def Let_def)
    next
      case long: True
      have disj: "\<forall>c \<in> set contours. set c \<inter> set traced = {}"
      proof (intro ballI)
        fix c assume c: "c \<in> set contours"
        show "set c \<inter> set traced = {}"
        proof (rule ccontr)
          assume "set c \<inter> set traced \<noteq> {}"
          then obtain p where pc: "p \<in> set c" and pt: "p \<in> set traced" by auto
          from inv st c pc have "visited_at visited (nat (snd p * int width + fst p))"
            by (auto simp: scan_inv_def)
          moreover from ti pt have "\<not> visited_at visited (nat (snd p * int width + fst p))"
            by (auto simp: trace_inv_def)
          ultimately show False by simp
        qed
      qed
      have "scan_inv edgeData width height threshold (contours @ [traced], visited')"
        using keep ti long disj
        by (auto simp: scan_inv_def trace_inv_def sorted_wrt_append)
      with True tr st long show ?thesis by (simp add: scan_pixel_def Let_def)
    qed
  qed
qed

lemma scan_row_inv:
  assumes "width * height \<le> length edgeData"
    and "scan_inv edgeData width height threshold state"
  shows "scan_inv edgeData width height threshold
           (fold (scan_pixel edgeData width height threshold y) xs state)"
  using assms(2)
  by (induction xs arbitrary: state) (simp_all add: scan_pixel_inv [OF assms(1)])

lemma scan_rows_inv:
  assumes "width * height \<le> length edgeData"
    and "scan_inv edgeData width height threshold state"
  shows "scan_inv edgeData width height threshold
           (fold (\<lambda>y. fold (scan_pixel edgeData width height threshold y) xs) ys state)"
  using assms(2)
  by (induction ys arbitrary: state) (simp_all add: scan_row_inv [OF assms(1)])

lemma findContours_inv:
  assumes "width * height \<le> length edgeData"
  shows "\<exists>visited. scan_inv edgeData width height 30
            (findContours edgeData width height, visited)"
proof -
  let ?st = "fold (\<lambda>y. fold (scan_pixel edgeData width height 30 y) [0 ..< width])
                [0 ..< height] ([], replicate (width * height) False)"
  have "scan_inv edgeData width height 30 ([], replicate (width * height) False)"
    by (simp add: scan_inv_def)
  from scan_rows_inv [OF assms this]
  have "scan_inv edgeData width height 30 ?st" .
  moreover have "?st = (findContours edgeData width height, snd ?st)"
    by (simp add: findContours_def Let_def)
  ultimately show ?thesis by metis
qed

text \<open>
  Claim C9. For every edge map of \<open>width * height\<close> values, the contours \<open>findContours\<close>
  returns are pairwise disjoint, none repeats a point, every point is in bounds and has an
  edge value above the threshold 30, and every contour has more than 10 points.
\<close>

theorem contour_tracer:
  assumes "length edgeData = width * height"
  shows "(\<forall>c \<in> set (findContours edgeData width height).
            distinct c \<and> length c > 10
            \<and> (\<forall>p \<in> set c.
                  0 \<le> fst p \<and> fst p < int width \<and> 0 \<le> snd p \<and> snd p < int height
                  \<and> edgeData ! nat (snd p * int width + fst p) > 30))
       \<and> (\<forall>i j. i < j \<and> j < length (findContours edgeData width height) \<longrightarrow>
              set (findContours edgeData width height ! i)
                \<inter> set (findContours edgeData width height ! j) = {})"
proof -
  from assms have "width * height \<le> length edgeData" by simp
  from findContours_inv [OF this] obtain visited where
    inv: "scan_inv edgeData width height 30 (findContours edgeData width height, visited)" ..
  from inv have 1: "\<forall>c \<in> set (findContours edgeData width height).
            distinct c \<and> length c > 10
            \<and> (\<forall>p \<in> set c.
                  0 \<le> fst p \<and> fst p < int width \<and> 0 \<le> snd p \<and> snd p < int height
                  \<and> edgeData ! nat (snd p * int width + fst p) > 30)"
    by (auto simp: scan_inv_def edge_gt_def)
  from inv have "sorted_wrt (\<lambda>a b. set a \<inter> set b = {}) (findContours edgeData width height)"
    by (simp add: scan_inv_def)
  then have 2: "\<forall>i j. i < j \<and> j < length (findContours edgeData width height) \<longrightarrow>
              set (findContours edgeData width height ! i)
                \<inter> set (findContours edgeData width height ! j) = {}"
    by (simp add: sorted_wrt_iff_nth_less)
  from 1 2 show ?thesis by blast
qed

lemma findContours_two_blobs:
  "findContours two_blobs 12 3 =
    [[(0, 0), (1, 1), (2, 2), (3, 2), (3, 1), (2, 1), (1, 2), (0, 2), (0, 1),
      (1, 0), (2, 0), (3, 0)],
     [(8, 0), (9, 1), (10, 2), (11, 2), (11, 1), (10, 1), (9, 2), (8, 2),
      (8, 1), (9, 0), (10, 0), (11, 0)]]"
  by code_simp

theorem contour_tracer_witness:
  "length two_blobs = 12 * 3
   \<and> length (findContours two_blobs 12 3) = 2
   \<and> distinct (findContours two_blobs 12 3 ! 0)
   \<and> length (findContours two_blobs 12 3 ! 1) > 10
   \<and> set (findContours two_blobs 12 3 ! 0) \<inter> set (findContours two_blobs 12 3 ! 1) = {}"
proof -
  have len: "length two_blobs = 12 * 3" by (simp add: two_blobs_def)
  have n: "length (findContours two_blobs 12 3) = 2" "(0::nat) < 1 \<and> 1 < length (findContours two_blobs 12 3)"
    by (simp_all add: findContours_two_blobs)
  have m: "findContours two_blobs 12 3 ! 0 \<in> set (findContours two_blobs 12 3)"
    "findContours two_blobs 12 3 ! 1 \<in> set (findContours two_blobs 12 3)"
    using n by simp_all
  from contour_tracer [OF len] n m len show ?thesis by blast
qed

subsection \<open>The flood fill reaches every connected strong pixel\<close>

lemma pixel_index_inj:
  assumes "0 \<le> fst p" "fst p < int width" "0 \<le> snd p"
    and "0 \<le> fst q" "fst q < int width" "0 \<le> snd q"
    and eq: "nat (snd p * int width + fst p) = nat (snd q * int width + fst q)"
  shows "p = q"
proof -
  have "snd p * int width + fst p = snd q * int width + fst q"
    using assms by (simp add: nat_eq_iff)
  then have e: "fst p + int width * snd p = fst q + int width * snd q"
    by (simp add: mult.commute add.commute)
  have "(fst p + int width * snd p) mod int width = fst p"
    "(fst q + int width * snd q) mod int width = fst q"
    using assms by simp_all
  with e have x: "fst p = fst q" by simp
  have "(fst p + int width * snd p) div int width = snd p"
    "(fst q + int width * snd q) div int width = snd q"
    using assms by simp_all
  with e have "snd p = snd q" by simp
  with x show ?thesis by (simp add: prod_eq_iff)
qed

lemma frontier_inv_skip:
  assumes inv: "frontier_inv edgeData width height threshold before ((x, y) # stack)
                  visited traced"
    and skip: "x < 0 \<or> x \<ge> int width \<or> y < 0 \<or> y \<ge> int height
         \<or> visited_at visited (nat (y * int width + x))
         \<or> edge_le edgeData (nat (y * int width + x)) threshold"
  shows "frontier_inv edgeData width height threshold before stack visited traced"
proof -
  have not_open: "\<not> (strong edgeData width height threshold (x, y)
      \<and> \<not> visited_at visited (nat (y * int width + x)))"
    using skip by (auto simp: strong_def edge_gt_def edge_le_def)
  have "q \<in> set stack"
    if p: "p \<in> set traced" and q: "q \<in> set (neighbours (fst p) (snd p))"
      and s: "strong edgeData width height threshold q"
      and v: "\<not> visited_at visited (nat (snd q * int width + fst q))" for p q
  proof -
    from inv p q s v have "q \<in> set ((x, y) # stack)"
      unfolding frontier_inv_def by blast
    moreover from not_open s v have "q \<noteq> (x, y)" by auto
    ultimately show ?thesis by simp
  qed
  with inv show ?thesis unfolding frontier_inv_def by blast
qed

lemma frontier_inv_take:
  assumes inv: "frontier_inv edgeData width height threshold before ((x, y) # stack)
                  visited traced"
  shows "frontier_inv edgeData width height threshold before
           (rev (neighbours x y) @ stack)
           (mark_visited visited (nat (y * int width + x))) (traced @ [(x, y)])"
proof -
  let ?i = "nat (y * int width + x)"
  have "q \<in> set (rev (neighbours x y) @ stack)"
    if p: "p \<in> set (traced @ [(x, y)])" and q: "q \<in> set (neighbours (fst p) (snd p))"
      and s: "strong edgeData width height threshold q"
      and v: "\<not> visited_at (mark_visited visited ?i) (nat (snd q * int width + fst q))"
    for p q
  proof (cases "p = (x, y)")
    case True
    with q show ?thesis by simp
  next
    case False
    with p have pt: "p \<in> set traced" by simp
    from v have v': "\<not> visited_at visited (nat (snd q * int width + fst q))"
      and ne: "nat (snd q * int width + fst q) \<noteq> ?i"
      by (simp_all add: visited_at_mark_visited)
    from inv pt q s v' have "q \<in> set ((x, y) # stack)"
      unfolding frontier_inv_def by blast
    moreover from ne have "q \<noteq> (x, y)" by auto
    ultimately show ?thesis by simp
  qed
  moreover have "visited_at (mark_visited visited ?i) j \<longleftrightarrow>
      visited_at before j
      \<or> (\<exists>p \<in> set (traced @ [(x, y)]). nat (snd p * int width + fst p) = j)" for j
    using inv unfolding frontier_inv_def by (auto simp: visited_at_mark_visited)
  ultimately show ?thesis unfolding frontier_inv_def by blast
qed

lemma trace_loop_frontier:
  assumes "frontier_inv edgeData width height threshold before stack visited traced"
  shows "frontier_inv edgeData width height threshold before []
           (snd (trace_loop edgeData width height threshold stack visited traced))
           (fst (trace_loop edgeData width height threshold stack visited traced))"
  using assms
proof (induction edgeData width height threshold stack visited traced
    rule: trace_loop.induct)
  case (1 edgeData width height threshold visited traced)
  then show ?case by simp
next
  case (2 edgeData width height threshold x y stack visited traced)
  let ?i = "nat (y * int width + x)"
  show ?case
  proof (cases "x < 0 \<or> x \<ge> int width \<or> y < 0 \<or> y \<ge> int height
         \<or> visited_at visited ?i \<or> edge_le edgeData ?i threshold")
    case True
    from frontier_inv_skip [OF "2.prems" True] "2.IH"(1) [OF refl True] True
    show ?thesis by (simp add: Let_def)
  next
    case False
    from frontier_inv_take [OF "2.prems"] "2.IH"(2) [OF refl False] False
    show ?thesis by (simp add: Let_def)
  qed
qed

lemma trace_loop_grows:
  "set traced \<subseteq> set (fst (trace_loop edgeData width height threshold stack visited traced))"
proof (induction edgeData width height threshold stack visited traced
    rule: trace_loop.induct)
  case (1 edgeData width height threshold visited traced)
  then show ?case by simp
next
  case (2 edgeData width height threshold x y stack visited traced)
  let ?i = "nat (y * int width + x)"
  show ?case
  proof (cases "x < 0 \<or> x \<ge> int width \<or> y < 0 \<or> y \<ge> int height
         \<or> visited_at visited ?i \<or> edge_le edgeData ?i threshold")
    case True
    with "2.IH"(1) [OF refl True] show ?thesis by (simp add: Let_def)
  next
    case False
    with "2.IH"(2) [OF refl False] show ?thesis by (auto simp: Let_def)
  qed
qed

lemma traceContour_complete:
  assumes len: "width * height \<le> length edgeData"
    and s: "strong edgeData width height threshold (startX, startY)"
    and nv: "\<not> visited_at visited (nat (startY * int width + startX))"
    and tr: "traceContour edgeData width height startX startY threshold visited
              = (traced, visited')"
    and c: "connected edgeData width height threshold visited (startX, startY) q"
  shows "q \<in> set traced"
proof -
  let ?i = "nat (startY * int width + startX)"
  from s have b: "0 \<le> startX" "startX < int width" "0 \<le> startY" "startY < int height"
    and gt: "edge_gt edgeData ?i threshold" by (simp_all add: strong_def)
  from gt have nle: "\<not> edge_le edgeData ?i threshold"
    by (simp add: edge_gt_def edge_le_def)
  have unfold: "trace_loop edgeData width height threshold [(startX, startY)] visited []
      = trace_loop edgeData width height threshold (rev (neighbours startX startY) @ [])
          (mark_visited visited ?i) ([] @ [(startX, startY)])"
    using b nv nle by (simp add: Let_def)
  have inv0: "frontier_inv edgeData width height threshold visited [(startX, startY)]
      visited []"
    by (simp add: frontier_inv_def)
  from trace_loop_frontier [OF frontier_inv_take [OF inv0]] unfold tr
  have fin: "frontier_inv edgeData width height threshold visited [] visited' traced"
    by (simp add: traceContour_def)
  from traceContour_inv [OF len tr]
  have ti: "trace_inv edgeData width height threshold visited visited' traced" .
  from trace_loop_grows [of "[] @ [(startX, startY)]" edgeData width height threshold
      "rev (neighbours startX startY) @ []" "mark_visited visited ?i"] unfold tr
  have st: "(startX, startY) \<in> set traced" by (simp add: traceContour_def)
  from c show ?thesis
  proof (induction rule: connected.induct)
    case start
    from st show ?case .
  next
    case (step p q)
    from fin step.IH step.hyps(2,3)
    have "visited_at visited' (nat (snd q * int width + fst q))"
      unfolding frontier_inv_def by auto
    with fin step.hyps(4) obtain p' where p': "p' \<in> set traced"
      and eq: "nat (snd p' * int width + fst p') = nat (snd q * int width + fst q)"
      unfolding frontier_inv_def by blast
    from ti p' have "0 \<le> fst p'" "fst p' < int width" "0 \<le> snd p'"
      by (auto simp: trace_inv_def)
    moreover from step.hyps(3) have "0 \<le> fst q" "fst q < int width" "0 \<le> snd q"
      by (simp_all add: strong_def)
    ultimately have "p' = q" using eq by (intro pixel_index_inj)
    with p' show ?case by simp
  qed
qed

subsection \<open>The arrays the convolution stages build\<close>

lemma length_fold_update_row [simp]:
  "length (fold (\<lambda>x acc. acc[b + x := f x]) xs acc) = length acc"
  by (induction xs arbitrary: acc) simp_all

lemma nth_fold_update_row:
  "i < length acc \<Longrightarrow>
   fold (\<lambda>x acc. acc[b + x := f x]) xs acc ! i =
     (if b \<le> i \<and> i - b \<in> set xs then f (i - b) else acc ! i)"
proof (induction xs arbitrary: acc)
  case Nil
  then show ?case by simp
next
  case (Cons x xs)
  then show ?case by (auto simp: nth_list_update)
qed

lemma length_fold_update_rows [simp]:
  "length (fold (\<lambda>y. fold (\<lambda>x acc. acc[y * w + x := f y x]) xs) ys acc) = length acc"
  by (induction ys arbitrary: acc) simp_all

lemma row_position:
  fixes w y i :: nat
  assumes "\<forall>x \<in> set xs. x < w"
  shows "(y * w \<le> i \<and> i - y * w \<in> set xs) \<longleftrightarrow> (i div w = y \<and> i mod w \<in> set xs)"
proof
  assume a: "y * w \<le> i \<and> i - y * w \<in> set xs"
  then have lt: "i - y * w < w" using assms by blast
  from a have i: "i = (i - y * w) + y * w" by simp
  have "((i - y * w) + y * w) div w = y" using lt by simp
  with i have d: "i div w = y" by simp
  have "((i - y * w) + y * w) mod w = i - y * w" using lt by simp
  with i have "i mod w = i - y * w" by simp
  with a d show "i div w = y \<and> i mod w \<in> set xs" by simp
next
  assume a: "i div w = y \<and> i mod w \<in> set xs"
  have "i = i div w * w + i mod w" by simp
  with a have "i = y * w + i mod w" by simp
  then have "y * w \<le> i" "i - y * w = i mod w" by linarith+
  with a show "y * w \<le> i \<and> i - y * w \<in> set xs" by simp
qed

lemma row_offset:
  fixes w y i :: nat
  assumes "\<forall>x \<in> set xs. x < w" and "y * w \<le> i \<and> i - y * w \<in> set xs"
  shows "i - y * w = i mod w"
proof -
  from assms have lt: "i - y * w < w" by blast
  from assms have i: "i = (i - y * w) + y * w" by simp
  have "((i - y * w) + y * w) mod w = i - y * w" using lt by simp
  with i show ?thesis by simp
qed

lemma nth_fold_update_rows:
  assumes "\<forall>x \<in> set xs. x < w" and "i < length acc"
  shows "fold (\<lambda>y. fold (\<lambda>x acc. acc[y * w + x := f y x]) xs) ys acc ! i =
     (if i div w \<in> set ys \<and> i mod w \<in> set xs then f (i div w) (i mod w) else acc ! i)"
  using assms(2)
proof (induction ys arbitrary: acc)
  case Nil
  then show ?case by simp
next
  case (Cons y ys)
  have row: "fold (\<lambda>x acc. acc[y * w + x := f y x]) xs acc ! i =
      (if i div w = y \<and> i mod w \<in> set xs then f y (i mod w) else acc ! i)"
  proof -
    have "y * w \<le> i \<and> i - y * w \<in> set xs \<Longrightarrow> i - y * w = i mod w"
      by (rule row_offset [OF assms(1)])
    with nth_fold_update_row [OF Cons.prems, of "y * w" "f y" xs]
      row_position [OF assms(1), of y i]
    show ?thesis by auto
  qed
  have "length (fold (\<lambda>x acc. acc[y * w + x := f y x]) xs acc) = length acc" by simp
  with Cons.prems have "i < length (fold (\<lambda>x acc. acc[y * w + x := f y x]) xs acc)" by simp
  from Cons.IH [OF this] row show ?case by auto
qed

lemma length_applyGaussianBlur [simp]:
  "length (applyGaussianBlur grayData width height) = length grayData"
  by (simp add: applyGaussianBlur_def Let_def)

lemma length_applySobelEdgeDetection [simp]:
  "length (applySobelEdgeDetection grayData width height) = length grayData"
  by (simp add: applySobelEdgeDetection_def Let_def)

lemma nth_applyGaussianBlur:
  assumes "i < length grayData"
  shows "applyGaussianBlur grayData width height ! i =
     (if 1 \<le> i div width \<and> i div width < height - 1
         \<and> 1 \<le> i mod width \<and> i mod width < width - 1
      then (case convolve [1, 2, 1, 2, 4, 2, 1, 2, 1] grayData width (i mod width) (i div width) of
              None \<Rightarrow> 0
            | Some s \<Rightarrow> to_uint8_clamp (real_of_int s / 16))
      else 0)"
proof -
  have xs: "\<forall>x \<in> set [1 ..< width - 1]. x < width" by auto
  have i: "i < length (replicate (length grayData) (0::nat))" using assms by simp
  show ?thesis
    unfolding applyGaussianBlur_def Let_def
    by (subst nth_fold_update_rows [OF xs i]) (use assms in auto)
qed

lemma nth_applySobelEdgeDetection:
  assumes "i < length grayData"
  shows "applySobelEdgeDetection grayData width height ! i =
     (if 1 \<le> i div width \<and> i div width < height - 1
         \<and> 1 \<le> i mod width \<and> i mod width < width - 1
      then (case (convolve [-1, 0, 1, -2, 0, 2, -1, 0, 1] grayData width
                    (i mod width) (i div width),
                  convolve [-1, -2, -1, 0, 0, 0, 1, 2, 1] grayData width
                    (i mod width) (i div width)) of
              (Some gx, Some gy) \<Rightarrow>
                to_uint8_clamp (min 255 (sqrt (real_of_int (gx * gx + gy * gy))))
            | _ \<Rightarrow> 0)
      else 0)"
proof -
  have xs: "\<forall>x \<in> set [1 ..< width - 1]. x < width" by auto
  have i: "i < length (replicate (length grayData) (0::nat))" using assms by simp
  show ?thesis
    unfolding applySobelEdgeDetection_def Let_def
    by (subst nth_fold_update_rows [OF xs i]) (use assms in auto)
qed

text \<open>A stored magnitude is above the threshold 30 exactly if the sum of squares is at
  least 931: the square of 30.5, where the rounding turns, is 930.25.\<close>

lemma to_uint8_clamp_gt_30: "30 < to_uint8_clamp v \<longleftrightarrow> 61 / 2 < v"
proof (cases "v \<le> 0 \<or> v \<ge> 255")
  case True
  then show ?thesis by (auto simp: to_uint8_clamp_def)
next
  case False
  then have v: "0 < v" "v < 255" by simp_all
  define f where "f = \<lfloor>v\<rfloor>"
  have f: "real_of_int f \<le> v" "v < real_of_int f + 1" unfolding f_def by linarith+
  have f0: "0 \<le> f" using v unfolding f_def by simp
  have r: "to_uint8_clamp v =
      (if v - real_of_int f < 1 / 2 then nat f
       else if v - real_of_int f > 1 / 2 then nat (f + 1)
       else if even f then nat f else nat (f + 1))"
    using v by (simp add: to_uint8_clamp_def Let_def f_def)
  consider "f \<le> 29" | "f = 30" | "31 \<le> f" by linarith
  then show ?thesis
  proof cases
    case 1
    then have "v < 30" using f by linarith
    moreover have "to_uint8_clamp v \<le> 30" using 1 f0 unfolding r by auto
    ultimately show ?thesis by simp
  next
    case 2
    then show ?thesis using f unfolding r by auto
  next
    case 3
    then have "31 \<le> v" using f by linarith
    moreover have "31 \<le> to_uint8_clamp v" using 3 unfolding r by auto
    ultimately show ?thesis by simp
  qed
qed

lemma magnitude_gt_30:
  "30 < to_uint8_clamp (min 255 (sqrt (real_of_int n))) \<longleftrightarrow> 931 \<le> n"
proof -
  have "61 / 2 < min 255 (sqrt (real_of_int n)) \<longleftrightarrow> 61 / 2 < sqrt (real_of_int n)"
    by simp
  also have "\<dots> \<longleftrightarrow> (61 / 2)\<^sup>2 < real_of_int n"
    by (metis real_sqrt_less_iff real_sqrt_abs abs_of_nonneg divide_nonneg_nonneg
        zero_le_numeral)
  also have "\<dots> \<longleftrightarrow> 931 \<le> n"
  proof -
    have "(61 / 2 :: real)\<^sup>2 = 3721 / 4" by (simp add: power2_eq_square)
    then show ?thesis by auto
  qed
  finally show ?thesis by (simp add: to_uint8_clamp_gt_30)
qed

subsection \<open>The stages on the rectangle image\<close>

lemma length_concat_quads:
  assumes "\<And>p. length (f p) = 4"
  shows "length (concat (map f [0 ..< n])) = 4 * n"
  by (induction n) (simp_all add: assms)

lemma nth_concat_quads:
  assumes len: "\<And>p. length (f p) = 4" and "p < n" and "c < 4"
  shows "concat (map f [0 ..< n]) ! (4 * p + c) = f p ! c"
  using assms(2)
proof (induction n)
  case 0
  then show ?case by simp
next
  case (Suc n)
  show ?case
  proof (cases "p < n")
    case True
    then have "4 * p + c < 4 * n" using assms(3) by simp
    with Suc.IH [OF True] show ?thesis
      by (simp add: nth_append length_concat_quads [of f, OF len])
  next
    case False
    with Suc.prems have "p = n" by simp
    then show ?thesis
      by (simp add: nth_append length_concat_quads [of f, OF len])
  qed
qed

lemma convolve_interior:
  assumes "Suc (Suc y) * w + Suc (Suc x) < length g"
  shows "convolve [k0, k1, k2, k3, k4, k5, k6, k7, k8] g w (Suc x) (Suc y) =
     Some (pixel g w x y * k0 + pixel g w (Suc x) y * k1 + pixel g w (Suc (Suc x)) y * k2
         + pixel g w x (Suc y) * k3 + pixel g w (Suc x) (Suc y) * k4
         + pixel g w (Suc (Suc x)) (Suc y) * k5
         + pixel g w x (Suc (Suc y)) * k6 + pixel g w (Suc x) (Suc (Suc y)) * k7
         + pixel g w (Suc (Suc x)) (Suc (Suc y)) * k8)"
proof -
  have all: "list_all (\<lambda>i. i < length g) (window w (Suc x) (Suc y))"
    using assms by (simp add: window_def)
  show ?thesis
    unfolding convolve_def using all
    by (simp add: window_def pixel_def)
qed

lemma length_rectangle_image: "length rectangle_image = 40000"
  unfolding rectangle_image_def by (subst length_concat_quads) simp_all

lemma length_gray_rectangle: "length (convertToGrayscale rectangle_image) = 10000"
  by (simp add: convertToGrayscale_def length_rectangle_image)

lemma to_uint8_clamp_255: "to_uint8_clamp 255 = 255" "to_uint8_clamp 0 = 0"
  by (simp_all add: to_uint8_clamp_def)

lemma nth_convertToGrayscale:
  "p < length data div 4 \<Longrightarrow>
   convertToGrayscale data ! p =
     to_uint8_clamp (real_of_int
       \<lfloor>0.299 * real (data ! (4 * p)) + 0.587 * real (data ! (4 * p + 1))
          + 0.114 * real (data ! (4 * p + 2)) + 1 / 2\<rfloor>)"
  by (simp add: convertToGrayscale_def Let_def)

lemma gray_rectangle:
  assumes "x < 100" and "y < 100"
  shows "int (convertToGrayscale rectangle_image ! (y * 100 + x)) = 255 * (in_cols x * in_rows y)"
proof -
  let ?f = "\<lambda>p::nat. if 40 \<le> p mod 100 \<and> p mod 100 < 60 \<and> 45 \<le> p div 100 \<and> p div 100 < 55
                      then [255, 255, 255, 255] else [0, 0, 0, 255::nat]"
  define p where "p = y * 100 + x"
  have len: "\<And>p. length (?f p) = 4" by simp
  from assms have p: "p < 10000" by (simp add: p_def)
  have m: "p mod 100 = x" "p div 100 = y" using assms by (simp_all add: p_def)
  have q: "rectangle_image ! (4 * p + c) = ?f p ! c" if "c < 4" for c
    unfolding rectangle_image_def using nth_concat_quads [of ?f, OF len p that] .
  from q [of 0] q [of 1] q [of 2]
  have r: "rectangle_image ! (4 * p) = (if 40 \<le> x \<and> x < 60 \<and> 45 \<le> y \<and> y < 55 then 255 else 0)"
    "rectangle_image ! (4 * p + 1) = (if 40 \<le> x \<and> x < 60 \<and> 45 \<le> y \<and> y < 55 then 255 else 0)"
    "rectangle_image ! (4 * p + 2) = (if 40 \<le> x \<and> x < 60 \<and> 45 \<le> y \<and> y < 55 then 255 else 0)"
    by (simp_all add: m)
  have pl: "p < length rectangle_image div 4" using p by (simp add: length_rectangle_image)
  have "convertToGrayscale rectangle_image ! p =
      (if 40 \<le> x \<and> x < 60 \<and> 45 \<le> y \<and> y < 55 then 255 else 0)"
    unfolding nth_convertToGrayscale [OF pl] r
    by (simp add: to_uint8_clamp_255)
  then show ?thesis by (simp add: in_cols_def in_rows_def p_def)
qed

lemma smoothed_table:
  "smoothed 0 = 0" "smoothed 1 = 16" "smoothed 3 = 48" "smoothed 4 = 64"
  "smoothed 9 = 143" "smoothed 12 = 191" "smoothed 16 = 255"
  by (simp_all add: smoothed_def to_uint8_clamp_def Let_def)

lemma pixel_gray_rectangle:
  "x < 100 \<Longrightarrow> y < 100 \<Longrightarrow>
   pixel (convertToGrayscale rectangle_image) 100 x y = 255 * (in_cols x * in_rows y)"
  by (simp add: pixel_def gray_rectangle)

lemma blurred_rectangle:
  assumes "x < 100" and "y < 100"
  shows "pixel (applyGaussianBlur (convertToGrayscale rectangle_image) 100 100) 100 x y
       = smoothed (col_weight x * row_weight y)"
proof -
  let ?g = "convertToGrayscale rectangle_image"
  define p where "p = y * 100 + x"
  from assms have i: "p < length ?g" by (simp add: length_gray_rectangle p_def)
  have m: "p mod 100 = x" "p div 100 = y" using assms by (simp_all add: p_def)
  have "int (applyGaussianBlur ?g 100 100 ! p) = smoothed (col_weight x * row_weight y)"
  proof (cases "1 \<le> y \<and> y < 99 \<and> 1 \<le> x \<and> x < 99")
    case False
    then have "col_weight x * row_weight y = 0"
      using assms by (auto simp: col_weight_def row_weight_def in_cols_def in_rows_def)
    with False show ?thesis
      unfolding nth_applyGaussianBlur [OF i] m by (auto simp: smoothed_table)
  next
    case True
    then obtain x' y' where xy: "x = Suc x'" "y = Suc y'"
      by (metis Suc_le_D One_nat_def)
    with True have b: "x' < 98" "y' < 98" by simp_all
    then have big: "Suc (Suc y') * 100 + Suc (Suc x') < length ?g"
      by (simp add: length_gray_rectangle)
    have px: "pixel ?g 100 u v = 255 * (in_cols u * in_rows v)"
      if "u \<le> Suc (Suc x')" "v \<le> Suc (Suc y')" for u v
      using that b by (intro pixel_gray_rectangle) simp_all
    have "convolve [1, 2, 1, 2, 4, 2, 1, 2, 1] ?g 100 (Suc x') (Suc y')
        = Some (255 * (col_weight (Suc x') * row_weight (Suc y')))"
      unfolding convolve_interior [OF big]
      by (simp add: px col_weight_def row_weight_def algebra_simps)
    with True xy show ?thesis
      unfolding nth_applyGaussianBlur [OF i] m by (simp add: smoothed_def)
  qed
  then show ?thesis by (simp add: p_def pixel_def)
qed

lemma col_profile:
  assumes "x < 98"
  shows "x \<le> 36 \<and> col_weight x = 0 \<and> col_weight (Suc x) = 0 \<and> col_weight (Suc (Suc x)) = 0
    \<or> x = 37 \<and> col_weight x = 0 \<and> col_weight (Suc x) = 0 \<and> col_weight (Suc (Suc x)) = 1
    \<or> x = 38 \<and> col_weight x = 0 \<and> col_weight (Suc x) = 1 \<and> col_weight (Suc (Suc x)) = 3
    \<or> x = 39 \<and> col_weight x = 1 \<and> col_weight (Suc x) = 3 \<and> col_weight (Suc (Suc x)) = 4
    \<or> x = 40 \<and> col_weight x = 3 \<and> col_weight (Suc x) = 4 \<and> col_weight (Suc (Suc x)) = 4
    \<or> 41 \<le> x \<and> x \<le> 56
        \<and> col_weight x = 4 \<and> col_weight (Suc x) = 4 \<and> col_weight (Suc (Suc x)) = 4
    \<or> x = 57 \<and> col_weight x = 4 \<and> col_weight (Suc x) = 4 \<and> col_weight (Suc (Suc x)) = 3
    \<or> x = 58 \<and> col_weight x = 4 \<and> col_weight (Suc x) = 3 \<and> col_weight (Suc (Suc x)) = 1
    \<or> x = 59 \<and> col_weight x = 3 \<and> col_weight (Suc x) = 1 \<and> col_weight (Suc (Suc x)) = 0
    \<or> x = 60 \<and> col_weight x = 1 \<and> col_weight (Suc x) = 0 \<and> col_weight (Suc (Suc x)) = 0
    \<or> 61 \<le> x \<and> col_weight x = 0 \<and> col_weight (Suc x) = 0 \<and> col_weight (Suc (Suc x)) = 0"
proof -
  consider "x \<le> 36" | "x = 37" | "x = 38" | "x = 39" | "x = 40" | "41 \<le> x \<and> x \<le> 56"
    | "x = 57" | "x = 58" | "x = 59" | "x = 60" | "61 \<le> x"
    by linarith
  then show ?thesis
    by cases (auto simp: col_weight_def in_cols_def)
qed

lemma row_profile:
  assumes "y < 98"
  shows "y \<le> 41 \<and> row_weight y = 0 \<and> row_weight (Suc y) = 0 \<and> row_weight (Suc (Suc y)) = 0
    \<or> y = 42 \<and> row_weight y = 0 \<and> row_weight (Suc y) = 0 \<and> row_weight (Suc (Suc y)) = 1
    \<or> y = 43 \<and> row_weight y = 0 \<and> row_weight (Suc y) = 1 \<and> row_weight (Suc (Suc y)) = 3
    \<or> y = 44 \<and> row_weight y = 1 \<and> row_weight (Suc y) = 3 \<and> row_weight (Suc (Suc y)) = 4
    \<or> y = 45 \<and> row_weight y = 3 \<and> row_weight (Suc y) = 4 \<and> row_weight (Suc (Suc y)) = 4
    \<or> 46 \<le> y \<and> y \<le> 51
        \<and> row_weight y = 4 \<and> row_weight (Suc y) = 4 \<and> row_weight (Suc (Suc y)) = 4
    \<or> y = 52 \<and> row_weight y = 4 \<and> row_weight (Suc y) = 4 \<and> row_weight (Suc (Suc y)) = 3
    \<or> y = 53 \<and> row_weight y = 4 \<and> row_weight (Suc y) = 3 \<and> row_weight (Suc (Suc y)) = 1
    \<or> y = 54 \<and> row_weight y = 3 \<and> row_weight (Suc y) = 1 \<and> row_weight (Suc (Suc y)) = 0
    \<or> y = 55 \<and> row_weight y = 1 \<and> row_weight (Suc y) = 0 \<and> row_weight (Suc (Suc y)) = 0
    \<or> 56 \<le> y \<and> row_weight y = 0 \<and> row_weight (Suc y) = 0 \<and> row_weight (Suc (Suc y)) = 0"
proof -
  consider "y \<le> 41" | "y = 42" | "y = 43" | "y = 44" | "y = 45" | "46 \<le> y \<and> y \<le> 51"
    | "y = 52" | "y = 53" | "y = 54" | "y = 55" | "56 \<le> y"
    by linarith
  then show ?thesis
    by cases (auto simp: row_weight_def in_rows_def)
qed

lemma strength_ring:
  assumes "x < 98" and "y < 98"
  shows "931 \<le> strength (col_weight x) (col_weight (Suc x)) (col_weight (Suc (Suc x)))
                  (row_weight y) (row_weight (Suc y)) (row_weight (Suc (Suc y)))
     \<longleftrightarrow> ring (int (Suc x), int (Suc y))"
  using col_profile [OF assms(1)] row_profile [OF assms(2)]
  by (elim disjE conjE) (simp_all add: strength_def smoothed_table ring_def)

lemma pixel_sobel_interior:
  assumes "Suc (Suc y) * w + Suc (Suc x) < length g" and "Suc x < w - 1" and "Suc y < h - 1"
  shows "applySobelEdgeDetection g w h ! (Suc y * w + Suc x) =
     (let gx = - pixel g w x y + pixel g w (Suc (Suc x)) y
               - 2 * pixel g w x (Suc y) + 2 * pixel g w (Suc (Suc x)) (Suc y)
               - pixel g w x (Suc (Suc y)) + pixel g w (Suc (Suc x)) (Suc (Suc y));
          gy = - pixel g w x y - 2 * pixel g w (Suc x) y - pixel g w (Suc (Suc x)) y
               + pixel g w x (Suc (Suc y)) + 2 * pixel g w (Suc x) (Suc (Suc y))
               + pixel g w (Suc (Suc x)) (Suc (Suc y))
      in to_uint8_clamp (min 255 (sqrt (real_of_int (gx * gx + gy * gy)))))"
proof -
  define p where "p = Suc y * w + Suc x"
  from assms have xw: "Suc x < w" by simp
  have "(Suc y * w + Suc x) mod w = Suc x mod w" by (rule mod_mult_self3)
  moreover have "(Suc y * w + Suc x) div w = Suc y + Suc x div w"
    using xw by (intro div_mult_self3) simp
  ultimately have m: "p mod w = Suc x" "p div w = Suc y"
    using xw by (simp_all only: p_def mod_less div_less add_0_right)
  from assms have i: "p < length g" by (simp add: p_def)
  have "applySobelEdgeDetection g w h ! p =
     (let gx = - pixel g w x y + pixel g w (Suc (Suc x)) y
               - 2 * pixel g w x (Suc y) + 2 * pixel g w (Suc (Suc x)) (Suc y)
               - pixel g w x (Suc (Suc y)) + pixel g w (Suc (Suc x)) (Suc (Suc y));
          gy = - pixel g w x y - 2 * pixel g w (Suc x) y - pixel g w (Suc (Suc x)) y
               + pixel g w x (Suc (Suc y)) + 2 * pixel g w (Suc x) (Suc (Suc y))
               + pixel g w (Suc (Suc x)) (Suc (Suc y))
      in to_uint8_clamp (min 255 (sqrt (real_of_int (gx * gx + gy * gy)))))"
    unfolding nth_applySobelEdgeDetection [OF i] m convolve_interior [OF assms(1)]
    using assms(2,3) by (simp add: Let_def algebra_simps)
  then show ?thesis by (simp only: p_def)
qed

lemma length_rectangle_edges: "length rectangle_edges = 10000"
  by (simp add: rectangle_edges_def length_gray_rectangle)

lemma rectangle_edges_strong:
  assumes "x < 100" and "y < 100"
  shows "30 < rectangle_edges ! (y * 100 + x) \<longleftrightarrow> ring (int x, int y)"
proof (cases "1 \<le> y \<and> y < 99 \<and> 1 \<le> x \<and> x < 99")
  case False
  define p where "p = y * 100 + x"
  let ?b = "applyGaussianBlur (convertToGrayscale rectangle_image) 100 100"
  from assms have i: "p < length ?b" by (simp add: length_gray_rectangle p_def)
  have m: "p mod 100 = x" "p div 100 = y" using assms by (simp_all add: p_def)
  have "rectangle_edges ! p = 0"
    unfolding rectangle_edges_def nth_applySobelEdgeDetection [OF i] m using False by auto
  moreover have "\<not> ring (int x, int y)" using False assms by (auto simp: ring_def)
  ultimately show ?thesis by (simp add: p_def)
next
  case True
  then obtain x' y' where xy: "x = Suc x'" "y = Suc y'"
    by (metis Suc_le_D One_nat_def)
  with True have b: "x' < 98" "y' < 98" by simp_all
  let ?b = "applyGaussianBlur (convertToGrayscale rectangle_image) 100 100"
  have big: "Suc (Suc y') * 100 + Suc (Suc x') < length ?b"
    using b by (simp add: length_gray_rectangle)
  have in1: "Suc x' < 100 - 1" "Suc y' < 100 - 1" using b by simp_all
  have px: "pixel ?b 100 u v = smoothed (col_weight u * row_weight v)"
    if "u \<le> Suc (Suc x')" "v \<le> Suc (Suc y')" for u v
    using that b by (intro blurred_rectangle) simp_all
  have "30 < rectangle_edges ! (Suc y' * 100 + Suc x') \<longleftrightarrow>
      931 \<le> strength (col_weight x') (col_weight (Suc x')) (col_weight (Suc (Suc x')))
               (row_weight y') (row_weight (Suc y')) (row_weight (Suc (Suc y')))"
    unfolding rectangle_edges_def pixel_sobel_interior [OF big in1] Let_def magnitude_gt_30
    by (simp add: px strength_def Let_def algebra_simps)
  with strength_ring [OF b] xy show ?thesis by simp
qed

lemma rectangle_strong_iff_ring:
  "strong rectangle_edges 100 100 30 p \<longleftrightarrow> ring p"
proof (cases "0 \<le> fst p \<and> fst p < 100 \<and> 0 \<le> snd p \<and> snd p < 100")
  case False
  then show ?thesis by (auto simp: strong_def ring_def)
next
  case True
  define x y where "x = nat (fst p)" and "y = nat (snd p)"
  from True have p: "p = (int x, int y)" and b: "x < 100" "y < 100"
    by (auto simp: x_def y_def prod_eq_iff)
  have "int y * 100 + int x = int (y * 100 + x)" by simp
  then have idx: "nat (int y * 100 + int x) = y * 100 + x" by (simp only: nat_int)
  from b have "y * 100 + x < length rectangle_edges"
    by (simp add: length_rectangle_edges)
  with rectangle_edges_strong [OF b] b show ?thesis
    unfolding p strong_def edge_gt_def by (simp add: idx)
qed

subsection \<open>The ring is one connected blob\<close>

lemma ring_step:
  assumes nv: "\<And>j. \<not> visited_at v0 j"
    and c: "connected rectangle_edges 100 100 30 v0 s p"
    and q: "q \<in> set (neighbours (fst p) (snd p))" and r: "ring q"
  shows "connected rectangle_edges 100 100 30 v0 s q"
proof (rule connected.step [OF c q])
  from r show "strong rectangle_edges 100 100 30 q" by (simp only: rectangle_strong_iff_ring)
  show "\<not> visited_at v0 (nat (snd q * int 100 + fst q))" by (rule nv)
qed

lemma sweep_right:
  assumes nv: "\<And>j. \<not> visited_at v0 j"
    and c: "connected rectangle_edges 100 100 30 v0 s (a, y)"
    and r: "\<forall>k \<le> n. ring (a + int k, y)"
  shows "connected rectangle_edges 100 100 30 v0 s (a + int n, y)"
  using r
proof (induction n)
  case 0
  with c show ?case by simp
next
  case (Suc n)
  then have "connected rectangle_edges 100 100 30 v0 s (a + int n, y)" by simp
  moreover have "(a + int (Suc n), y) \<in> set (neighbours (fst (a + int n, y)) (snd (a + int n, y)))"
    by (simp add: neighbours_def)
  moreover from Suc.prems have "ring (a + int (Suc n), y)" by blast
  ultimately show ?case by (rule ring_step [OF nv])
qed

lemma sweep_left:
  assumes nv: "\<And>j. \<not> visited_at v0 j"
    and c: "connected rectangle_edges 100 100 30 v0 s (a, y)"
    and r: "\<forall>k \<le> n. ring (a - int k, y)"
  shows "connected rectangle_edges 100 100 30 v0 s (a - int n, y)"
  using r
proof (induction n)
  case 0
  with c show ?case by simp
next
  case (Suc n)
  then have "connected rectangle_edges 100 100 30 v0 s (a - int n, y)" by simp
  moreover have "(a - int (Suc n), y) \<in> set (neighbours (fst (a - int n, y)) (snd (a - int n, y)))"
    by (simp add: neighbours_def)
  moreover from Suc.prems have "ring (a - int (Suc n), y)" by blast
  ultimately show ?case by (rule ring_step [OF nv])
qed

lemma sweep_down:
  assumes nv: "\<And>j. \<not> visited_at v0 j"
    and c: "connected rectangle_edges 100 100 30 v0 s (x, b)"
    and r: "\<forall>k \<le> n. ring (x, b + int k)"
  shows "connected rectangle_edges 100 100 30 v0 s (x, b + int n)"
  using r
proof (induction n)
  case 0
  with c show ?case by simp
next
  case (Suc n)
  then have "connected rectangle_edges 100 100 30 v0 s (x, b + int n)" by simp
  moreover have "(x, b + int (Suc n)) \<in> set (neighbours (fst (x, b + int n)) (snd (x, b + int n)))"
    by (simp add: neighbours_def)
  moreover from Suc.prems have "ring (x, b + int (Suc n))" by blast
  ultimately show ?case by (rule ring_step [OF nv])
qed

text \<open>Sweeps to a given column or row.\<close>

lemma reach_right:
  assumes nv: "\<And>j. \<not> visited_at v0 j"
    and c: "connected rectangle_edges 100 100 30 v0 s (a, y)"
    and le: "a \<le> x" and r: "\<And>u. a \<le> u \<Longrightarrow> u \<le> x \<Longrightarrow> ring (u, y)"
  shows "connected rectangle_edges 100 100 30 v0 s (x, y)"
proof -
  have "\<forall>k \<le> nat (x - a). ring (a + int k, y)"
  proof (intro allI impI)
    fix k assume "k \<le> nat (x - a)"
    with le have "a \<le> a + int k" "a + int k \<le> x" by linarith+
    then show "ring (a + int k, y)" by (rule r)
  qed
  from sweep_right [OF nv c this] le show ?thesis by simp
qed

lemma reach_left:
  assumes nv: "\<And>j. \<not> visited_at v0 j"
    and c: "connected rectangle_edges 100 100 30 v0 s (a, y)"
    and le: "x \<le> a" and r: "\<And>u. x \<le> u \<Longrightarrow> u \<le> a \<Longrightarrow> ring (u, y)"
  shows "connected rectangle_edges 100 100 30 v0 s (x, y)"
proof -
  have "\<forall>k \<le> nat (a - x). ring (a - int k, y)"
  proof (intro allI impI)
    fix k assume "k \<le> nat (a - x)"
    with le have "x \<le> a - int k" "a - int k \<le> a" by linarith+
    then show "ring (a - int k, y)" by (rule r)
  qed
  from sweep_left [OF nv c this] le show ?thesis by simp
qed

lemma reach_down:
  assumes nv: "\<And>j. \<not> visited_at v0 j"
    and c: "connected rectangle_edges 100 100 30 v0 s (x, b)"
    and le: "b \<le> y" and r: "\<And>v. b \<le> v \<Longrightarrow> v \<le> y \<Longrightarrow> ring (x, v)"
  shows "connected rectangle_edges 100 100 30 v0 s (x, y)"
proof -
  have "\<forall>k \<le> nat (y - b). ring (x, b + int k)"
  proof (intro allI impI)
    fix k assume "k \<le> nat (y - b)"
    with le have "b \<le> b + int k" "b + int k \<le> y" by linarith+
    then show "ring (x, b + int k)" by (rule r)
  qed
  from sweep_down [OF nv c this] le show ?thesis by simp
qed

lemma ring_connected:
  assumes nv: "\<And>j. \<not> visited_at v0 j" and r: "ring p"
  shows "connected rectangle_edges 100 100 30 v0 (39, 43) p"
proof -
  let ?C = "connected rectangle_edges 100 100 30 v0 (39, 43)"
  obtain x y where p: "p = (x, y)" by (cases p)
  have s: "?C (39, 43)" by (rule connected.start)
  have top: "?C (u, 43)" if "39 \<le> u" "u \<le> 60" for u
  proof (rule reach_right [OF nv s that(1)])
    fix w :: int assume "39 \<le> w" "w \<le> u"
    with that show "ring (w, 43)" by (simp add: ring_def)
  qed
  have band: "?C (u, v)" if "39 \<le> u" "u \<le> 60" "43 \<le> v" "v \<le> 46" for u v
  proof (rule reach_down [OF nv top [OF that(1,2)] that(3)])
    fix w :: int assume "43 \<le> w" "w \<le> v"
    with that show "ring (u, w)" by (simp add: ring_def)
  qed
  have left3: "?C (u, v)" if "39 \<le> u" "u \<le> 41" "43 \<le> v" "v \<le> 56" for u v
  proof -
    from that have "?C (u, 43)" by (intro top) simp_all
    then show ?thesis
    proof (rule reach_down [OF nv _ that(3)])
      fix w :: int assume "43 \<le> w" "w \<le> v"
      with that show "ring (u, w)" by (simp add: ring_def)
    qed
  qed
  have right3: "?C (u, v)" if "58 \<le> u" "u \<le> 60" "43 \<le> v" "v \<le> 56" for u v
  proof -
    from that have "?C (u, 43)" by (intro top) simp_all
    then show ?thesis
    proof (rule reach_down [OF nv _ that(3)])
      fix w :: int assume "43 \<le> w" "w \<le> v"
      with that show "ring (u, w)" by (simp add: ring_def)
    qed
  qed
  have col38: "?C (38, v)" if "44 \<le> v" "v \<le> 55" for v
  proof -
    have "?C (39, 44)" by (rule band) simp_all
    then have "?C (38, 44)"
    proof (rule reach_left [OF nv])
      show "(38::int) \<le> 39" by simp
      fix w :: int assume "38 \<le> w" "w \<le> 39"
      then show "ring (w, 44)" by (simp add: ring_def)
    qed
    then show ?thesis
    proof (rule reach_down [OF nv _ that(1)])
      fix w :: int assume "44 \<le> w" "w \<le> v"
      with that show "ring (38, w)" by (simp add: ring_def)
    qed
  qed
  have col61: "?C (61, v)" if "44 \<le> v" "v \<le> 55" for v
  proof -
    have "?C (60, 44)" by (rule band) simp_all
    then have "?C (61, 44)"
    proof (rule reach_right [OF nv])
      show "(60::int) \<le> 61" by simp
      fix w :: int assume "60 \<le> w" "w \<le> 61"
      then show "ring (w, 44)" by (simp add: ring_def)
    qed
    then show ?thesis
    proof (rule reach_down [OF nv _ that(1)])
      fix w :: int assume "44 \<le> w" "w \<le> v"
      with that show "ring (61, w)" by (simp add: ring_def)
    qed
  qed
  have bottom: "?C (u, v)" if "42 \<le> u" "u \<le> 57" "53 \<le> v" "v \<le> 56" for u v
  proof -
    have "?C (41, 53)" by (rule left3) simp_all
    then have "?C (u, 53)"
    proof (rule reach_right [OF nv])
      from that show "41 \<le> u" by simp
      fix w :: int assume "41 \<le> w" "w \<le> u"
      with that show "ring (w, 53)" by (simp add: ring_def)
    qed
    then show ?thesis
    proof (rule reach_down [OF nv _ that(3)])
      fix w :: int assume "53 \<le> w" "w \<le> v"
      with that show "ring (u, w)" by (simp add: ring_def)
    qed
  qed
  from r have b: "38 \<le> x" "x \<le> 61" "43 \<le> y" "y \<le> 56"
    and hole: "\<not> (42 \<le> x \<and> x \<le> 57 \<and> 47 \<le> y \<and> y \<le> 52)"
    and corner: "\<not> ((x = 38 \<or> x = 61) \<and> (y = 43 \<or> y = 56))"
    unfolding p ring_def by simp_all
  consider "x = 38" | "x = 61" | "39 \<le> x \<and> x \<le> 41" | "58 \<le> x \<and> x \<le> 60"
    | "42 \<le> x \<and> x \<le> 57 \<and> y \<le> 46" | "42 \<le> x \<and> x \<le> 57 \<and> 53 \<le> y"
    using b hole by linarith
  then show ?thesis
  proof cases
    case 1
    with corner b have "44 \<le> y" "y \<le> 55" by linarith+
    with 1 col38 show ?thesis unfolding p by simp
  next
    case 2
    with corner b have "44 \<le> y" "y \<le> 55" by linarith+
    with 2 col61 show ?thesis unfolding p by simp
  next
    case 3
    with b left3 show ?thesis unfolding p by simp
  next
    case 4
    with b right3 show ?thesis unfolding p by simp
  next
    case 5
    with b band [of x y] show ?thesis unfolding p by simp
  next
    case 6
    with b bottom show ?thesis unfolding p by simp
  qed
qed

subsection \<open>The scan over the rectangle's edge map\<close>

lemma scan_pixel_skip:
  "\<not> (edge_gt edgeData (y * width + x) threshold \<and> \<not> visited_at visited (y * width + x)) \<Longrightarrow>
   scan_pixel edgeData width height threshold y x (contours, visited) = (contours, visited)"
  by (auto simp: scan_pixel_def Let_def)

lemma scan_row_unchanged:
  assumes "\<And>x. x \<in> set xs \<Longrightarrow> scan_pixel edgeData width height threshold y x state = state"
  shows "fold (scan_pixel edgeData width height threshold y) xs state = state"
  using assms by (induction xs) simp_all

lemma scan_rows_unchanged:
  assumes "\<And>x y. y \<in> set ys \<Longrightarrow> x \<in> set xs \<Longrightarrow>
             scan_pixel edgeData width height threshold y x state = state"
  shows "fold (\<lambda>y. fold (scan_pixel edgeData width height threshold y) xs) ys state = state"
  using assms by (induction ys) (simp_all add: scan_row_unchanged)

lemma fold_upt_split:
  assumes "a \<le> b" and "b < c"
  shows "fold f [a ..< c] s = fold f [Suc b ..< c] (f b (fold f [a ..< b] s))"
proof -
  from assms have "[a ..< c] = [a ..< b] @ b # [Suc b ..< c]"
    by (metis le_add_diff_inverse less_imp_le_nat upt_add_eq_append upt_conv_Cons)
  then show ?thesis by simp
qed

lemma findContours_rectangle:
  "\<exists>c. findContours rectangle_edges 100 100 = [c] \<and> distinct c \<and> set c = {p. ring p}"
proof -
  define v0 :: "bool list" where "v0 = replicate (100 * 100) False"
  have nv: "\<not> visited_at v0 j" for j by (simp add: v0_def visited_at_def)
  obtain c v1 where tr: "traceContour rectangle_edges 100 100 39 43 30 v0 = (c, v1)"
    by (cases "traceContour rectangle_edges 100 100 39 43 30 v0")
  have len: "100 * 100 \<le> length rectangle_edges" by (simp add: length_rectangle_edges)
  from traceContour_inv [OF len tr]
  have ti: "trace_inv rectangle_edges 100 100 30 v0 v1 c" .
  have sound: "ring p" if "p \<in> set c" for p
  proof -
    from ti that have "strong rectangle_edges 100 100 30 p"
      by (auto simp: trace_inv_def strong_def)
    then show ?thesis by (simp only: rectangle_strong_iff_ring)
  qed
  have start: "strong rectangle_edges 100 100 30 (39, 43)"
    unfolding rectangle_strong_iff_ring by (simp add: ring_def)
  have complete: "p \<in> set c" if "ring p" for p
    using len start nv tr ring_connected [OF nv that]
    by (rule traceContour_complete [where startX = 39 and startY = 43])
  have set_c: "set c = {p. ring p}" using sound complete by auto
  have dist: "distinct c" using ti by (simp add: trace_inv_def)
  have marked: "visited_at v1 (y * 100 + x)" if "ring (int x, int y)" for x y
  proof -
    from complete [OF that] ti
    have "visited_at v1 (nat (snd (int x, int y) * int 100 + fst (int x, int y)))"
      unfolding trace_inv_def by blast
    moreover have "int y * 100 + int x = int (y * 100 + x)" by simp
    ultimately show ?thesis by (simp only: fst_conv snd_conv of_nat_numeral nat_int)
  qed
  have egt: "edge_gt rectangle_edges (y * 100 + x) 30 \<longleftrightarrow> ring (int x, int y)"
    if "x < 100" "y < 100" for x y
  proof -
    from that have "y * 100 + x < length rectangle_edges"
      by (simp add: length_rectangle_edges)
    with rectangle_edges_strong [OF that] show ?thesis by (simp add: edge_gt_def)
  qed
  have weak: "scan_pixel rectangle_edges 100 100 30 y x (cs, v) = (cs, v)"
    if "x < 100" "y < 100" "\<not> ring (int x, int y)" for x y cs v
    using that egt [OF that(1,2)] by (intro scan_pixel_skip) simp
  have settled: "scan_pixel rectangle_edges 100 100 30 y x (cs, v1) = (cs, v1)"
    if "x < 100" "y < 100" for x y cs
    using that egt [OF that] marked [of x y] by (intro scan_pixel_skip) auto
  \<comment> \<open>the rows above the ring, and the pixels of row 43 left of the start\<close>
  have above: "fold (\<lambda>y. fold (scan_pixel rectangle_edges 100 100 30 y) [0 ..< 100]) [0 ..< 43]
      ([], v0) = ([], v0)"
  proof (rule scan_rows_unchanged)
    fix x y :: nat assume "y \<in> set [0 ..< 43]" "x \<in> set [0 ..< 100]"
    then have "x < 100" "y < 43" by (simp_all only: set_upt atLeastLessThan_iff)
    then show "scan_pixel rectangle_edges 100 100 30 y x ([], v0) = ([], v0)"
      by (intro weak) (simp_all add: ring_def)
  qed
  have before: "fold (scan_pixel rectangle_edges 100 100 30 43) [0 ..< 39] ([], v0) = ([], v0)"
  proof (rule scan_row_unchanged)
    fix x :: nat assume "x \<in> set [0 ..< 39]"
    then have "x < 39" by (simp only: set_upt atLeastLessThan_iff)
    then show "scan_pixel rectangle_edges 100 100 30 43 x ([], v0) = ([], v0)"
      by (intro weak) (simp_all add: ring_def)
  qed
  \<comment> \<open>the start pixel: the trace takes the whole ring\<close>
  have long: "10 < length c"
  proof -
    let ?S = "(\<lambda>k. (39 + int k, 43 :: int)) ` {0 ..< 11 :: nat}"
    have "?S \<subseteq> set c"
    proof
      fix p assume "p \<in> ?S"
      then obtain k :: nat where "k < 11" "p = (39 + int k, 43)" by auto
      then have "ring p" by (simp add: ring_def)
      then show "p \<in> set c" by (rule complete)
    qed
    then have "card ?S \<le> card (set c)" by (intro card_mono) simp_all
    moreover have "card ?S = 11" by (subst card_image) (simp_all add: inj_on_def)
    ultimately show ?thesis using dist by (simp add: distinct_card)
  qed
  have at: "scan_pixel rectangle_edges 100 100 30 43 39 ([], v0) = ([c], v1)"
  proof -
    have "edge_gt rectangle_edges (43 * 100 + 39) 30"
      by (subst egt) (simp_all add: ring_def)
    moreover have "int 39 = 39" "int 43 = 43" by simp_all
    ultimately show ?thesis
      unfolding scan_pixel_def Let_def using nv tr long by simp
  qed
  \<comment> \<open>after the trace every strong pixel is marked\<close>
  have after: "fold (scan_pixel rectangle_edges 100 100 30 43) [Suc 39 ..< 100] ([c], v1)
      = ([c], v1)"
  proof (rule scan_row_unchanged)
    fix x :: nat assume "x \<in> set [Suc 39 ..< 100]"
    then have "x < 100" by (simp only: set_upt atLeastLessThan_iff)
    then show "scan_pixel rectangle_edges 100 100 30 43 x ([c], v1) = ([c], v1)"
      by (intro settled) simp_all
  qed
  have below: "fold (\<lambda>y. fold (scan_pixel rectangle_edges 100 100 30 y) [0 ..< 100])
      [Suc 43 ..< 100] ([c], v1) = ([c], v1)"
  proof (rule scan_rows_unchanged)
    fix x y :: nat assume "y \<in> set [Suc 43 ..< 100]" "x \<in> set [0 ..< 100]"
    then have "x < 100" "y < 100" by (simp_all only: set_upt atLeastLessThan_iff)
    then show "scan_pixel rectangle_edges 100 100 30 y x ([c], v1) = ([c], v1)"
      by (rule settled)
  qed
  have row: "fold (scan_pixel rectangle_edges 100 100 30 43) [0 ..< 100] ([], v0) = ([c], v1)"
  proof -
    have "fold (scan_pixel rectangle_edges 100 100 30 43) [0 ..< 100] ([], v0) =
        fold (scan_pixel rectangle_edges 100 100 30 43) [Suc 39 ..< 100]
          (scan_pixel rectangle_edges 100 100 30 43 39
             (fold (scan_pixel rectangle_edges 100 100 30 43) [0 ..< 39] ([], v0)))"
      by (rule fold_upt_split) simp_all
    also have "\<dots> = ([c], v1)" by (simp only: before at after)
    finally show ?thesis .
  qed
  have "fold (\<lambda>y. fold (scan_pixel rectangle_edges 100 100 30 y) [0 ..< 100]) [0 ..< 100]
      ([], v0) = ([c], v1)"
  proof -
    let ?f = "\<lambda>y. fold (scan_pixel rectangle_edges 100 100 30 y) [0 ..< 100]"
    have "fold ?f [0 ..< 100] ([], v0) =
        fold ?f [Suc 43 ..< 100] (?f 43 (fold ?f [0 ..< 43] ([], v0)))"
      by (rule fold_upt_split) simp_all
    also have "\<dots> = ([c], v1)" by (simp only: above row below)
    finally show ?thesis .
  qed
  then have "findContours rectangle_edges 100 100 = [c]"
    unfolding findContours_def Let_def v0_def by (simp only: fst_conv)
  with dist set_c show ?thesis by blast
qed

subsection \<open>The concrete scenario\<close>

lemma ring_bounding_box:
  assumes "set c = {p. ring p}"
  shows "getBoundingBox c
       = Some \<lparr>bbox_x = 38, bbox_y = 43, bbox_width = 23, bbox_height = 13\<rparr>"
proof -
  have r: "ring (38, 44)" "ring (61, 44)" "ring (39, 43)" "ring (39, 56)"
    by (simp_all add: ring_def)
  with assms have m: "(38, 44) \<in> set c" "(61, 44) \<in> set c" "(39, 43) \<in> set c"
    "(39, 56) \<in> set c" by simp_all
  then have ne: "c \<noteq> []" by auto
  have bx: "38 \<le> fst p \<and> fst p \<le> 61" and by': "43 \<le> snd p \<and> snd p \<le> 56"
    if "p \<in> set c" for p
    using that assms by (simp_all add: ring_def)
  have "Min (fst ` set c) = 38"
  proof (rule Min_eqI)
    show "finite (fst ` set c)" by simp
    show "38 \<le> u" if "u \<in> fst ` set c" for u using that bx by auto
    from m(1) show "38 \<in> fst ` set c" by force
  qed
  moreover have "Max (fst ` set c) = 61"
  proof (rule Max_eqI)
    show "finite (fst ` set c)" by simp
    show "u \<le> 61" if "u \<in> fst ` set c" for u using that bx by auto
    from m(2) show "61 \<in> fst ` set c" by force
  qed
  moreover have "Min (snd ` set c) = 43"
  proof (rule Min_eqI)
    show "finite (snd ` set c)" by simp
    show "43 \<le> u" if "u \<in> snd ` set c" for u using that by' by auto
    from m(3) show "43 \<in> snd ` set c" by force
  qed
  moreover have "Max (snd ` set c) = 56"
  proof (rule Max_eqI)
    show "finite (snd ` set c)" by simp
    show "u \<le> 56" if "u \<in> snd ` set c" for u using that by' by auto
    from m(4) show "56 \<in> snd ` set c" by force
  qed
  ultimately show ?thesis
    unfolding getBoundingBox_Some [OF ne] by simp
qed

lemma detect_rectangle:
  "\<exists>c. detect rectangle_image 100 100 expectedCount =
     [\<lparr>contour = c,
       bbox = \<lparr>bbox_x = 38, bbox_y = 43, bbox_width = 23, bbox_height = 13\<rparr>,
       area = 299, aspectRatio = Num (23 / 13),
       centerX = 99 / 2, centerY = 99 / 2, confidence = 1 / 2\<rparr>]"
proof -
  from findContours_rectangle obtain c where
    fc: "findContours rectangle_edges 100 100 = [c]" and sc: "set c = {p. ring p}" by blast
  let ?t = "\<lparr>contour = c,
       bbox = \<lparr>bbox_x = 38, bbox_y = 43, bbox_width = 23, bbox_height = 13\<rparr>,
       area = 299, aspectRatio = Num (23 / 13),
       centerX = 99 / 2, centerY = 99 / 2, confidence = 1 / 2\<rparr>"
  have cl: "classifyContour 100 100 c = Some ?t"
    by (simp add: classifyContour_def ring_bounding_box [OF sc] js_div_def
        calculateTongueConfidence_def Let_def)
  have acc: "accepted_shapes [c] 100 100 = [?t]"
    by (simp add: accepted_shapes_def List.map_filter_def cl)
  have "5 \<le> max (real expectedCount * 1.5) (real expectedCount + 5)"
    by (simp add: le_max_iff_disj)
  then have "5 \<le> \<lfloor>max (real expectedCount * 1.5) (real expectedCount + 5)\<rfloor>"
    by (simp only: le_floor_iff of_int_numeral)
  then obtain k where k: "nat \<lfloor>max (real expectedCount * 1.5) (real expectedCount + 5)\<rfloor> = Suc k"
    by (metis Suc_pred' zero_less_nat_eq less_le_trans zero_less_numeral)
  have "filterTongueShapes [c] 100 100 expectedCount = [?t]"
    unfolding filterTongueShapes_def Let_def acc k
    by (simp add: removeOverlappingTongues_def)
  then have "detect rectangle_image 100 100 expectedCount = [?t]"
    unfolding detect_def Let_def rectangle_edges_def [symmetric] fc .
  then show ?thesis ..
qed

text \<open>
  Claim C5, as the code has it. On the 100 by 100 image with one white rectangle, 20 wide
  and 10 high, on black (top left pixel (40, 45)), the pipeline with edge threshold 30
  returns exactly one candidate, whatever the expected count. Its bounding box is the
  rectangle grown by two pixels on every side, x = 38, y = 43, width 23 and height 13,
  since smoothing and gradient each widen the outline by one pixel; its area is 299 and
  its aspect ratio 23 / 13, below 2.0, so its confidence is the base 0.5.
\<close>

theorem rectangle_scenario:
  "map bbox (detect rectangle_image 100 100 expectedCount)
     = [\<lparr>bbox_x = 38, bbox_y = 43, bbox_width = 23, bbox_height = 13\<rparr>]
   \<and> map area (detect rectangle_image 100 100 expectedCount) = [299]
   \<and> map aspectRatio (detect rectangle_image 100 100 expectedCount) = [Num (23 / 13)]
   \<and> map confidence (detect rectangle_image 100 100 expectedCount) = [1 / 2]"
proof -
  from detect_rectangle [of expectedCount] obtain c where
    "detect rectangle_image 100 100 expectedCount =
     [\<lparr>contour = c,
       bbox = \<lparr>bbox_x = 38, bbox_y = 43, bbox_width = 23, bbox_height = 13\<rparr>,
       area = 299, aspectRatio = Num (23 / 13),
       centerX = 99 / 2, centerY = 99 / 2, confidence = 1 / 2\<rparr>]" ..
  then show ?thesis by simp
qed

theorem rectangle_scenario_witness:
  "map confidence (detect rectangle_image 100 100 8) = [1 / 2]
   \<and> map area (detect rectangle_image 100 100 8) = [299]"
  using rectangle_scenario [of 8] by simp

text \<open>
  Against claim C5 as stated: with expected count 1 the pipeline returns one candidate
  for the rectangle image, and its confidence is below 0.8; its box is 23 by 13, not the
  rectangle's 20 by 10.
\<close>

theorem rectangle_confidence_counterexample:
  "length (detect rectangle_image 100 100 1) = 1
   \<and> confidence (hd (detect rectangle_image 100 100 1)) < 0.8
   \<and> bbox_width (bbox (hd (detect rectangle_image 100 100 1))) = 23
   \<and> bbox_height (bbox (hd (detect rectangle_image 100 100 1))) = 13"
proof -
  from detect_rectangle [of 1] obtain c where
    "detect rectangle_image 100 100 1 =
     [\<lparr>contour = c,
       bbox = \<lparr>bbox_x = 38, bbox_y = 43, bbox_width = 23, bbox_height = 13\<rparr>,
       area = 299, aspectRatio = Num (23 / 13),
       centerX = 99 / 2, centerY = 99 / 2, confidence = 1 / 2\<rparr>]" ..
  then show ?thesis by simp
qed

end
